theory Spec2Isabelle
  imports Main "HOL-Library.Word"
begin

section \<open>JavaScript strings\<close>

text \<open>
  A JavaScript string is a sequence of UTF-16 code units, and \<^verbatim>\<open>length\<close> counts
  code units. String literals of the source are ASCII and are written as HOL strings,
  converted by \<open>js\<close>.
\<close>

type_synonym jschar = "16 word"
type_synonym jsstring = "jschar list"

definition js :: "string \<Rightarrow> jsstring" where
  "js s = map of_char s"

text \<open>
  The code units that \<^verbatim>\<open>String.prototype.trim\<close> strips: the WhiteSpace and
  LineTerminator productions of ECMAScript (TAB, LF, VT, FF, CR, SP, NBSP, the
  Space\_Separator category, LS, PS and the byte order mark).
\<close>

definition isWhiteSpace :: "jschar \<Rightarrow> bool" where
  "isWhiteSpace c \<longleftrightarrow>
     c = 0x09 \<or> c = 0x0A \<or> c = 0x0B \<or> c = 0x0C \<or> c = 0x0D \<or> c = 0x20 \<or>
     c = 0xA0 \<or> c = 0x1680 \<or> (0x2000 \<le> c \<and> c \<le> 0x200A) \<or>
     c = 0x2028 \<or> c = 0x2029 \<or> c = 0x202F \<or> c = 0x205F \<or> c = 0x3000 \<or> c = 0xFEFF"

definition trim :: "jsstring \<Rightarrow> jsstring" where
  "trim s = rev (dropWhile isWhiteSpace (rev (dropWhile isWhiteSpace s)))"

text \<open>\<^verbatim>\<open>s.slice(-n)\<close>: the last \<open>n\<close> code units, the whole string when it is shorter.\<close>

definition slice_last :: "nat \<Rightarrow> jsstring \<Rightarrow> jsstring" where
  "slice_last n s = drop (length s - n) s"

text \<open>\<^verbatim>\<open>xs.join(sep)\<close>.\<close>

fun join :: "jsstring \<Rightarrow> jsstring list \<Rightarrow> jsstring" where
  "join sep [] = []"
| "join sep [x] = x"
| "join sep (x # y # ys) = x @ sep @ join sep (y # ys)"

text \<open>A non-negative integer inside a template literal: its decimal digits.\<close>

definition digit :: "nat \<Rightarrow> jschar" where
  "digit d = of_nat (48 + d)"

fun showNat :: "nat \<Rightarrow> jsstring" where
  "showNat n = (if n < 10 then [digit n] else showNat (n div 10) @ [digit (n mod 10)])"

declare showNat.simps [simp del]

text \<open>A thrown \<^verbatim>\<open>Error\<close>, with its message.\<close>

datatype error = Error jsstring

section \<open>The chunker\<close>

definition MAX_CHUNK_SIZE :: nat where
  "MAX_CHUNK_SIZE = 3500"

definition CHUNK_OVERLAP :: nat where
  "CHUNK_OVERLAP = 200"

definition MAX_DOCUMENT_SIZE :: nat where
  "MAX_DOCUMENT_SIZE = 50000"

definition LF :: jschar where
  "LF = 0x0A"

definition CR :: jschar where
  "CR = 0x0D"

text \<open>
  One attempt of the regular expression \<^verbatim>\<open>/\n\n+|\r\n\r\n+/\<close> at the head of the
  input: the rest of the input after the (greedy) match, or \<open>None\<close> when neither
  alternative matches there.
\<close>

definition match_separator :: "jsstring \<Rightarrow> jsstring option" where
  "match_separator s =
     (case s of
        a # b # rest \<Rightarrow>
          if a = LF \<and> b = LF then Some (dropWhile (\<lambda>c. c = LF) rest)
          else (case rest of
                  c # d # rest' \<Rightarrow>
                    if a = CR \<and> b = LF \<and> c = CR \<and> d = LF
                    then Some (dropWhile (\<lambda>c. c = LF) rest')
                    else None
                | _ \<Rightarrow> None)
      | _ \<Rightarrow> None)"

text \<open>
  \<^verbatim>\<open>text.split(/\n\n+|\r\n\r\n+/)\<close> on a non-empty string: the scan of
  \<^verbatim>\<open>String.prototype.split\<close>, with \<open>cur\<close> the piece collected since the last match.
  The expression never matches the empty string, so every match ends a piece.
\<close>

function split_separator :: "jsstring \<Rightarrow> jsstring \<Rightarrow> jsstring list" where
  "split_separator cur [] = [cur]"
| "split_separator cur (c # cs) =
     (case match_separator (c # cs) of
        Some rest \<Rightarrow> cur # split_separator [] rest
      | None \<Rightarrow> split_separator (cur @ [c]) cs)"
  by pat_completeness auto
termination
  by (relation "measure (\<lambda>(cur, s). length s)")
     (auto simp: match_separator_def length_dropWhile_le le_SucI less_Suc_eq_le
        split: list.splits if_splits)

definition splitIntoParagraphs :: "jsstring \<Rightarrow> jsstring list" where
  "splitIntoParagraphs text =
     filter (\<lambda>p. length p > 0) (map trim (split_separator [] text))"

record chunk =
  chunk_text :: jsstring
  chunk_index :: nat
  chunk_total :: nat
  chunk_start :: int
  chunk_end :: int

text \<open>The variables of the paragraph loop of \<^verbatim>\<open>chunkContent\<close>.\<close>

record chunker_state =
  chunks :: "chunk list"
  currentChunk :: jsstring
  chunkStartIndex :: int

definition make_chunk :: "chunker_state \<Rightarrow> chunk" where
  "make_chunk st =
     \<lparr>chunk_text = currentChunk st,
      chunk_index = length (chunks st),
      chunk_total = 0,
      chunk_start = chunkStartIndex st,
      chunk_end = chunkStartIndex st + int (length (currentChunk st))\<rparr>"

definition chunk_step :: "jsstring \<Rightarrow> chunker_state \<Rightarrow> chunker_state" where
  "chunk_step para st =
     (let potentialChunk =
            (if currentChunk st \<noteq> [] then currentChunk st @ [LF, LF] @ para else para)
      in if length potentialChunk > MAX_CHUNK_SIZE \<and> length (currentChunk st) > 0
         then
           \<lparr>chunks = chunks st @ [make_chunk st],
            currentChunk = slice_last CHUNK_OVERLAP (currentChunk st) @ [LF, LF] @ para,
            chunkStartIndex =
              chunkStartIndex st + (int (length (currentChunk st)) - int CHUNK_OVERLAP)\<rparr>
         else st\<lparr>currentChunk := potentialChunk\<rparr>)"

fun chunk_loop :: "jsstring list \<Rightarrow> chunker_state \<Rightarrow> chunker_state" where
  "chunk_loop [] st = st"
| "chunk_loop (para # paragraphs) st = chunk_loop paragraphs (chunk_step para st)"

definition final_chunks :: "chunker_state \<Rightarrow> chunk list" where
  "final_chunks st =
     (if length (currentChunk st) > 0 then chunks st @ [make_chunk st] else chunks st)"

definition set_totals :: "chunk list \<Rightarrow> chunk list" where
  "set_totals cs = map (\<lambda>c. c\<lparr>chunk_total := length cs\<rparr>) cs"

definition document_too_long :: "nat \<Rightarrow> jsstring" where
  "document_too_long n =
     js ''Document too long ('' @ showNat n @ js '' chars). Maximum supported: ''
       @ showNat MAX_DOCUMENT_SIZE @ js '' chars.''"

definition chunkContent :: "jsstring \<Rightarrow> error + chunk list" where
  "chunkContent content =
     (if content = [] \<or> length (trim content) = 0 then Inr []
      else
        let trimmedContent = trim content in
        if length trimmedContent > MAX_DOCUMENT_SIZE
        then Inl (Error (document_too_long (length trimmedContent)))
        else if length trimmedContent \<le> MAX_CHUNK_SIZE
        then Inr [\<lparr>chunk_text = trimmedContent, chunk_index = 0, chunk_total = 1,
                   chunk_start = 0, chunk_end = int (length trimmedContent)\<rparr>]
        else
          Inr (set_totals (final_chunks
                 (chunk_loop (splitIntoParagraphs trimmedContent)
                    \<lparr>chunks = [], currentChunk = [], chunkStartIndex = 0\<rparr>))))"

record validation =
  valid :: bool
  validation_error :: "jsstring option"
  validation_length :: "nat option"

definition content_too_long :: "nat \<Rightarrow> jsstring" where
  "content_too_long n =
     js ''Content too long ('' @ showNat n @ js '' chars). Maximum: ''
       @ showNat MAX_DOCUMENT_SIZE @ js '' chars.''"

definition validateContentLength :: "jsstring \<Rightarrow> validation" where
  "validateContentLength content =
     (if content = [] \<or> length (trim content) = 0
      then \<lparr>valid = False, validation_error = Some (js ''No content to process''),
            validation_length = None\<rparr>
      else
        let len = length (trim content) in
        if len > MAX_DOCUMENT_SIZE
        then \<lparr>valid = False, validation_error = Some (content_too_long len),
              validation_length = Some len\<rparr>
        else \<lparr>valid = True, validation_error = None, validation_length = Some len\<rparr>)"

section \<open>Key points: the local fallback deduplication\<close>

record keypoint =
  point :: jsstring
  importance :: jsstring
  category :: jsstring
  chunkIndex :: nat

text \<open>
  \<^verbatim>\<open>Array.prototype.sort(comparefn)\<close>. A comparator result that is not a number
  (\<open>None\<close>, for \<^verbatim>\<open>NaN\<close>) counts as \<open>0\<close>, as SortCompare of ECMAScript has it.
  The sort is stable; it is written here as a stable insertion sort, which fixes the
  result also for comparators that are not consistent, where the language leaves the
  order to the implementation.
\<close>

definition sortCompare :: "('a \<Rightarrow> 'a \<Rightarrow> int option) \<Rightarrow> 'a \<Rightarrow> 'a \<Rightarrow> int" where
  "sortCompare comparefn x y = (case comparefn x y of None \<Rightarrow> 0 | Some v \<Rightarrow> v)"

fun sort_insert :: "('a \<Rightarrow> 'a \<Rightarrow> int option) \<Rightarrow> 'a \<Rightarrow> 'a list \<Rightarrow> 'a list" where
  "sort_insert comparefn x [] = [x]"
| "sort_insert comparefn x (y # ys) =
     (if sortCompare comparefn x y > 0 then y # sort_insert comparefn x ys
      else x # y # ys)"

definition array_sort :: "('a \<Rightarrow> 'a \<Rightarrow> int option) \<Rightarrow> 'a list \<Rightarrow> 'a list" where
  "array_sort comparefn xs = foldr (sort_insert comparefn) xs []"

text \<open>
  The object \<^verbatim>\<open>{ high: 0, medium: 1, low: 2 }\<close>; a key it does not have reads as
  \<^verbatim>\<open>undefined\<close> (\<open>None\<close>).
\<close>

definition importanceOrder :: "jsstring \<Rightarrow> int option" where
  "importanceOrder = map_of [(js ''high'', 0), (js ''medium'', 1), (js ''low'', 2)]"

text \<open>The comparator of \<^verbatim>\<open>deduplicateSimple\<close>; a subtraction with \<^verbatim>\<open>undefined\<close> is \<^verbatim>\<open>NaN\<close>.\<close>

definition compare_importance :: "keypoint \<Rightarrow> keypoint \<Rightarrow> int option" where
  "compare_importance a b =
     (case (importanceOrder (importance a), importanceOrder (importance b)) of
        (Some x, Some y) \<Rightarrow> Some (x - y)
      | _ \<Rightarrow> None)"

text \<open>
  The loop of \<^verbatim>\<open>deduplicateSimple\<close> over the key points, with its two variables.
  \<^verbatim>\<open>String.prototype.toLowerCase\<close> maps through the Unicode case tables, which are
  not part of the repository: it is the parameter \<open>toLowerCase\<close>.
\<close>

fun unique_loop ::
  "(jsstring \<Rightarrow> jsstring) \<Rightarrow> keypoint list \<Rightarrow> keypoint list \<Rightarrow> jsstring set \<Rightarrow> keypoint list"
where
  "unique_loop toLowerCase [] uniquePoints seen = uniquePoints"
| "unique_loop toLowerCase (kp # keyPoints) uniquePoints seen =
     (let normalized = trim (toLowerCase (point kp))
      in if normalized \<notin> seen
         then unique_loop toLowerCase keyPoints (uniquePoints @ [kp]) (insert normalized seen)
         else unique_loop toLowerCase keyPoints uniquePoints seen)"

definition deduplicateSimple :: "(jsstring \<Rightarrow> jsstring) \<Rightarrow> keypoint list \<Rightarrow> keypoint list" where
  "deduplicateSimple toLowerCase keyPoints =
     take 10 (array_sort compare_importance (unique_loop toLowerCase keyPoints [] {}))"

subsection \<open>The deduplication as the specification words it\<close>

text \<open>
  Normalise each point's text (lowercase, then trim) as the key, keep the first occurrence
  of each key, sort stably by the rank of the importance, keep the first ten.
\<close>

definition normalized_key :: "(jsstring \<Rightarrow> jsstring) \<Rightarrow> keypoint \<Rightarrow> jsstring" where
  "normalized_key toLowerCase kp = trim (toLowerCase (point kp))"

text \<open>The elements whose key occurs at no earlier position of the list.\<close>

definition first_occurrences :: "('a \<Rightarrow> 'k) \<Rightarrow> 'a list \<Rightarrow> 'a list" where
  "first_occurrences key xs =
     map snd (filter (\<lambda>(i, x). key x \<notin> key ` set (take i xs)) (enumerate 0 xs))"

definition importance_rank :: "jsstring \<Rightarrow> nat" where
  "importance_rank i =
     (if i = js ''high'' then 0 else if i = js ''medium'' then 1 else 2)"

definition valid_importance :: "keypoint \<Rightarrow> bool" where
  "valid_importance kp \<longleftrightarrow>
     importance kp = js ''high'' \<or> importance kp = js ''medium'' \<or> importance kp = js ''low''"

definition deduplicate_spec :: "(jsstring \<Rightarrow> jsstring) \<Rightarrow> keypoint list \<Rightarrow> keypoint list" where
  "deduplicate_spec toLowerCase keyPoints =
     take 10 (sort_key (\<lambda>kp. importance_rank (importance kp))
       (first_occurrences (normalized_key toLowerCase) keyPoints))"

section \<open>The engines\<close>

text \<open>
  The operations of \<^verbatim>\<open>ai-apis.js\<close> reach the browser's built-in engines; they are
  parameters of the pipelines. \<^verbatim>\<open>detectLanguage\<close> catches every failure and answers
  \<^verbatim>\<open>'en'\<close> then, so it always returns; the others may throw. \<^verbatim>\<open>parseJSONResponse\<close>
  rests on \<^verbatim>\<open>JSON.parse\<close> and is a parameter too, with the parsed object reduced to
  the two fields that are read (\<open>None\<close> for a missing or falsy field).
  Every call of an engine is recorded, in order.
\<close>

record parsed_relevance =
  parsed_score :: "int option"
  parsed_reasoning :: "jsstring option"

record engines =
  detectLanguage :: "jsstring \<Rightarrow> jsstring"
  translateText :: "jsstring \<Rightarrow> jsstring \<Rightarrow> jsstring \<Rightarrow> error + jsstring"
  promptAPI :: "jsstring \<Rightarrow> jsstring \<Rightarrow> error + jsstring"
  fastPromptAPI :: "jsstring \<Rightarrow> jsstring \<Rightarrow> error + jsstring"
  parseJSONResponse :: "jsstring \<Rightarrow> error + parsed_relevance"
  toLowerCase :: "jsstring \<Rightarrow> jsstring"

datatype engine_call =
    DetectLanguage jsstring
  | TranslateText jsstring jsstring jsstring
  | PromptAPI jsstring jsstring
  | FastPromptAPI jsstring jsstring

text \<open>
  \<^verbatim>\<open>toLowerCase\<close> on the letters of ASCII, and engines to run the pipelines on
  examples: they detect English, translate nothing, answer with the prompt they get,
  and have no structured completion.
\<close>

definition ascii_toLowerCase :: "jsstring \<Rightarrow> jsstring" where
  "ascii_toLowerCase = map (\<lambda>c. if 0x41 \<le> c \<and> c \<le> 0x5A then c + 0x20 else c)"

definition sample_engines :: engines where
  "sample_engines =
     \<lparr>detectLanguage = (\<lambda>text. js ''en''),
      translateText = (\<lambda>text target source. Inr text),
      promptAPI = (\<lambda>userPrompt systemPrompt. Inr userPrompt),
      fastPromptAPI = (\<lambda>userPrompt systemPrompt. Inl (Error (js ''unavailable''))),
      parseJSONResponse = (\<lambda>response. Inl (Error (js ''no JSON''))),
      toLowerCase = ascii_toLowerCase\<rparr>"

text \<open>\<^verbatim>\<open>throw new Error(validation.error)\<close>.\<close>

definition validation_failure :: "validation \<Rightarrow> error" where
  "validation_failure v = (case validation_error v of Some m \<Rightarrow> Error m | None \<Rightarrow> Error [])"

text \<open>The \<^verbatim>\<open>catch\<close> of a pipeline: the error is thrown again with the pipeline's prefix.\<close>

definition rethrow :: "string \<Rightarrow> error + 'a \<Rightarrow> error + 'a" where
  "rethrow prefix r = (case r of Inl (Error m) \<Rightarrow> Inl (Error (js prefix @ m)) | Inr v \<Rightarrow> Inr v)"

section \<open>Translation\<close>

record translation_result =
  translatedText :: jsstring
  sourceLanguage :: jsstring
  targetLanguage :: jsstring
  translation_note :: "jsstring option"
  chunksProcessed :: "nat option"

text \<open>
  The loop over the chunks: one call of \<^verbatim>\<open>translateText\<close> after the other, the pairs
  of index and translated text collected; a call that throws ends it.
\<close>

fun translate_chunks ::
  "engines \<Rightarrow> jsstring \<Rightarrow> jsstring \<Rightarrow> chunk list \<Rightarrow> (nat \<times> jsstring) list \<Rightarrow> engine_call list
     \<Rightarrow> (error + (nat \<times> jsstring) list) \<times> engine_call list"
where
  "translate_chunks E target source [] translatedChunks calls = (Inr translatedChunks, calls)"
| "translate_chunks E target source (c # cs) translatedChunks calls =
     (case translateText E (chunk_text c) target source of
        Inl e \<Rightarrow> (Inl e, calls @ [TranslateText (chunk_text c) target source])
      | Inr translated \<Rightarrow>
          translate_chunks E target source cs
            (translatedChunks @ [(chunk_index c, translated)])
            (calls @ [TranslateText (chunk_text c) target source]))"

definition translateContent ::
  "engines \<Rightarrow> jsstring \<Rightarrow> jsstring \<Rightarrow> jsstring option
     \<Rightarrow> (error + translation_result) \<times> engine_call list"
where
  "translateContent E content target sourceOpt =
     (let validation = validateContentLength content in
      if \<not> valid validation then (Inl (validation_failure validation), [])
      else
        let (source, calls) =
              (case sourceOpt of
                 None \<Rightarrow> (detectLanguage E content, [DetectLanguage content])
               | Some s \<Rightarrow>
                   if s = [] then (detectLanguage E content, [DetectLanguage content])
                   else (s, []))
        in
          if source = target
          then (Inr \<lparr>translatedText = content, sourceLanguage = source,
                     targetLanguage = target,
                     translation_note = Some (js ''Content is already in the target language''),
                     chunksProcessed = None\<rparr>, calls)
          else
            (case chunkContent content of
               Inl e \<Rightarrow> (rethrow ''Translation failed: '' (Inl e), calls)
             | Inr cs \<Rightarrow>
                 (case translate_chunks E target source cs [] calls of
                    (Inl e, calls') \<Rightarrow> (rethrow ''Translation failed: '' (Inl e), calls')
                  | (Inr translatedChunks, calls') \<Rightarrow>
                      (Inr \<lparr>translatedText =
                              join [LF, LF]
                                (map snd
                                   (array_sort (\<lambda>a b. Some (int (fst a) - int (fst b)))
                                      translatedChunks)),
                            sourceLanguage = source,
                            targetLanguage = target,
                            translation_note = None,
                            chunksProcessed = Some (length cs)\<rparr>, calls'))))"

section \<open>Question answering\<close>

definition createJSONSystemPrompt :: jsstring where
  "createJSONSystemPrompt = js (''You are a JSON generator. You MUST respond ONLY with valid JSON. '' @
     ''Do not include any conversational text, explanations, or markdown formatting.'')"

definition createJSONInstructionFooter :: jsstring where
  "createJSONInstructionFooter =
     js ''\<newline>\<newline>Return ONLY the JSON (no other text), nothing else.''"

definition answer_system_prompt :: jsstring where
  \<open>answer_system_prompt = js (
     ''You are analyzing a terms of service or privacy policy document. '' @
     ''Answer the user's question based ONLY on the provided document content.\<newline>'' @
     ''\<newline>'' @
     ''Rules:\<newline>'' @
     ''- If the answer is in the document, provide a clear, concise answer\<newline>'' @
     ''- Quote relevant sections when helpful\<newline>'' @
     ''- If the information is not in the document, say "This information is not found in the document"\<newline>'' @
     ''- Be honest if you're uncertain\<newline>'' @
     ''- Keep answers focused and relevant\<newline>'' @
     ''\<newline>'' @
     ''Answer the question clearly and helpfully.'')\<close>

definition answerFromChunk ::
  "engines \<Rightarrow> jsstring \<Rightarrow> jsstring \<Rightarrow> engine_call list \<Rightarrow> (error + jsstring) \<times> engine_call list"
where
  "answerFromChunk E text question calls =
     (let userPrompt =
            js ''Document:\<newline>\<newline>'' @ text
              @ js ''\<newline>\<newline>---\<newline>\<newline>Question: '' @ question
      in (promptAPI E userPrompt answer_system_prompt,
          calls @ [PromptAPI userPrompt answer_system_prompt]))"

text \<open>\<^verbatim>\<open>s.split(/\s+/)\<close>; the class \<^verbatim>\<open>\s\<close> is the white space that \<^verbatim>\<open>trim\<close> strips.\<close>

function split_whitespace :: "jsstring \<Rightarrow> jsstring \<Rightarrow> jsstring list" where
  "split_whitespace cur [] = [cur]"
| "split_whitespace cur (c # cs) =
     (if isWhiteSpace c then cur # split_whitespace [] (dropWhile isWhiteSpace cs)
      else split_whitespace (cur @ [c]) cs)"
  by pat_completeness auto
termination
  by (relation "measure (\<lambda>(cur, s). length s)")
     (auto simp: length_dropWhile_le less_Suc_eq_le)

text \<open>\<^verbatim>\<open>s.includes(k)\<close>: \<open>k\<close> occurs in \<open>s\<close> as a substring.\<close>

fun includes_str :: "jsstring \<Rightarrow> jsstring \<Rightarrow> bool" where
  "includes_str [] k = (k = [])"
| "includes_str (c # cs) k = (take (length k) (c # cs) = k \<or> includes_str cs k)"

record relevance =
  score :: int
  reasoning :: jsstring

definition keywordMatchScore :: "engines \<Rightarrow> jsstring \<Rightarrow> jsstring \<Rightarrow> relevance" where
  "keywordMatchScore E question text =
     (let keywords = filter (\<lambda>w. length w > 3) (split_whitespace [] (toLowerCase E question));
          matches = length (filter (\<lambda>kw. includes_str (toLowerCase E text) kw) keywords)
      in \<lparr>score = min 10 (int matches * 2), reasoning = js ''Keyword matching fallback''\<rparr>)"

definition relevance_prompt :: "chunk \<Rightarrow> jsstring \<Rightarrow> jsstring" where
  \<open>relevance_prompt c question =
     js ''Rate relevance (0-10) of this chunk for answering the question.\<newline>\<newline>''
     @ js ''Return JSON: {"score": 7, "reasoning": "brief explanation"}\<newline>\<newline>''
     @ js ''Score: 0-3: Not relevant, 4-6: Somewhat relevant, 7-10: Highly relevant''
     @ createJSONInstructionFooter
     @ js ''\<newline>\<newline>Question: '' @ question
     @ js ''\<newline>\<newline>Chunk (Part '' @ showNat (chunk_index c + 1) @ js '' of ''
     @ showNat (chunk_total c) @ js ''):\<newline>''
     @ take 1000 (chunk_text c) @ js ''...''\<close>

definition assessChunkRelevance ::
  "engines \<Rightarrow> chunk \<Rightarrow> jsstring \<Rightarrow> relevance \<times> engine_call"
where
  "assessChunkRelevance E c question =
     (let userPrompt = relevance_prompt c question;
          call = FastPromptAPI userPrompt createJSONSystemPrompt
      in case fastPromptAPI E userPrompt createJSONSystemPrompt of
           Inl e \<Rightarrow> (keywordMatchScore E question (chunk_text c), call)
         | Inr response \<Rightarrow>
             (case parseJSONResponse E response of
                Inl e \<Rightarrow> (keywordMatchScore E question (chunk_text c), call)
              | Inr result \<Rightarrow>
                  (\<lparr>score = (case parsed_score result of Some v \<Rightarrow> v | None \<Rightarrow> 0),
                    reasoning = (case parsed_reasoning result of Some r \<Rightarrow> r | None \<Rightarrow> [])\<rparr>,
                   call)))"

text \<open>
  The relevance of every chunk (the calls are issued in the order of the chunks), the
  three best by score, those of them with a positive score.
\<close>

definition findRelevantChunks ::
  "engines \<Rightarrow> chunk list \<Rightarrow> jsstring \<Rightarrow> engine_call list \<Rightarrow> chunk list \<times> engine_call list"
where
  "findRelevantChunks E cs question calls =
     (let assessed = map (\<lambda>c. (c, assessChunkRelevance E c question)) cs;
          chunkRelevance = map (\<lambda>(c, r, call). (c, r)) assessed;
          ranked = array_sort (\<lambda>a b. Some (score (snd b) - score (snd a))) chunkRelevance;
          topChunks = filter (\<lambda>cr. score (snd cr) > 0) (take 3 ranked)
      in (map fst topChunks, calls @ map (\<lambda>(c, r, call). call) assessed))"

definition answerFromMultipleChunks ::
  "engines \<Rightarrow> chunk list \<Rightarrow> jsstring \<Rightarrow> engine_call list \<Rightarrow> (error + jsstring) \<times> engine_call list"
where
  \<open>answerFromMultipleChunks E cs question calls =
     (case findRelevantChunks E cs question calls of
        (relevantChunks, calls') \<Rightarrow>
          if length relevantChunks = 0
          then (Inr (js (''I couldn't find relevant information in the document '' @
                         ''to answer this question.'')), calls')
          else
            let combinedContext =
                  join (js ''\<newline>\<newline>---\<newline>\<newline>'')
                    (map (\<lambda>rc. js ''[Part '' @ showNat (chunk_index rc + 1) @ js '']\<newline>''
                                @ chunk_text rc) relevantChunks)
            in answerFromChunk E combinedContext question calls')\<close>

definition answerQuestion ::
  "engines \<Rightarrow> jsstring \<Rightarrow> jsstring \<Rightarrow> (error + jsstring) \<times> engine_call list"
where
  "answerQuestion E content question =
     (if question = [] \<or> length (trim question) = 0
      then (Inl (Error (js ''Please provide a question'')), [])
      else
        let validation = validateContentLength content in
        if \<not> valid validation then (Inl (validation_failure validation), [])
        else
          (case chunkContent content of
             Inl e \<Rightarrow> (rethrow ''Q&A failed: '' (Inl e), [])
           | Inr cs \<Rightarrow>
               (case (case cs of
                        [c] \<Rightarrow> answerFromChunk E (chunk_text c) question []
                      | _ \<Rightarrow> answerFromMultipleChunks E cs question [])
                of (r, calls) \<Rightarrow> (rethrow ''Q&A failed: '' r, calls))))"

section \<open>Notions for the proofs\<close>

text \<open>The chunks carry their positions in the list as indices.\<close>

definition indexed :: "chunk list \<Rightarrow> bool" where
  "indexed cs \<longleftrightarrow> (\<forall>i < length cs. chunk_index (cs ! i) = i)"

text \<open>
  A chain of chunks from the offset \<open>s\<close>: the first starts at \<open>s\<close>, every chunk ends
  its text's length after its start, and the next starts the overlap before that end.
  \<open>next_start\<close> is where a chunk appended to the chain starts.
\<close>

fun chained :: "int \<Rightarrow> chunk list \<Rightarrow> bool" where
  "chained s [] = True"
| "chained s (c # cs) =
     (chunk_start c = s \<and> chunk_end c = s + int (length (chunk_text c)) \<and>
      chained (chunk_end c - int CHUNK_OVERLAP) cs)"

fun next_start :: "int \<Rightarrow> chunk list \<Rightarrow> int" where
  "next_start s [] = s"
| "next_start s (c # cs) = next_start (chunk_end c - int CHUNK_OVERLAP) cs"

text \<open>
  What the paragraph loop keeps: on the offsets of the closed chunks, and on the running
  chunk against the paragraphs processed so far.
\<close>

definition offsets_inv :: "chunker_state \<Rightarrow> bool" where
  "offsets_inv st \<longleftrightarrow>
     chained 0 (chunks st) \<and> chunkStartIndex st = next_start 0 (chunks st) \<and>
     (\<forall>c \<in> set (tl (chunks st)). CHUNK_OVERLAP \<le> length (chunk_text c)) \<and>
     (chunks st \<noteq> [] \<longrightarrow> CHUNK_OVERLAP \<le> length (currentChunk st))"

definition length_inv :: "jsstring list \<Rightarrow> chunker_state \<Rightarrow> bool" where
  "length_inv processed st \<longleftrightarrow>
     (currentChunk st = [] \<longleftrightarrow> processed = []) \<and>
     (processed = [] \<longrightarrow> chunks st = []) \<and>
     chunkStartIndex st + int (length (currentChunk st)) \<le> int (length (join [LF, LF] processed)) \<and>
     ((\<forall>c \<in> set (chunks st). CHUNK_OVERLAP \<le> length (chunk_text c)) \<longrightarrow>
        chunkStartIndex st + int (length (currentChunk st)) = int (length (join [LF, LF] processed)))"

text \<open>A document of two paragraphs of 3000 letters each, and its chunks.\<close>

definition sample_document :: jsstring where
  "sample_document = replicate 3000 0x61 @ [LF, LF] @ replicate 3000 0x62"

definition sample_chunks :: "chunk list" where
  "sample_chunks =
     [\<lparr>chunk_text = replicate 3000 0x61, chunk_index = 0, chunk_total = 2,
       chunk_start = 0, chunk_end = 3000\<rparr>,
      \<lparr>chunk_text = replicate 200 0x61 @ [LF, LF] @ replicate 3000 0x62,
       chunk_index = 1, chunk_total = 2, chunk_start = 2800, chunk_end = 6002\<rparr>]"

text \<open>
  The occurrences in a list whose key is neither in \<open>seen\<close> nor the key of an earlier
  element.
\<close>

definition unseen_occurrences :: "('a \<Rightarrow> 'k) \<Rightarrow> 'k set \<Rightarrow> 'a list \<Rightarrow> 'a list" where
  "unseen_occurrences key seen xs =
     map snd (filter (\<lambda>(i, x). key x \<notin> seen \<union> key ` set (take i xs)) (enumerate 0 xs))"

text \<open>Key points of two chunks, one of them found twice, and their deduplication.\<close>

definition sample_keypoints :: "keypoint list" where
  "sample_keypoints =
     [\<lparr>point = js '' Data Sold '', importance = js ''low'', category = js ''data'',
       chunkIndex = 0\<rparr>,
      \<lparr>point = js ''Tracking'', importance = js ''medium'', category = js ''privacy'',
       chunkIndex = 0\<rparr>,
      \<lparr>point = js ''data sold'', importance = js ''high'', category = js ''data'',
       chunkIndex = 1\<rparr>,
      \<lparr>point = js ''No refunds'', importance = js ''high'', category = js ''financial'',
       chunkIndex = 1\<rparr>]"

definition sample_deduplicated :: "keypoint list" where
  "sample_deduplicated =
     [\<lparr>point = js ''No refunds'', importance = js ''high'', category = js ''financial'',
       chunkIndex = 1\<rparr>,
      \<lparr>point = js ''Tracking'', importance = js ''medium'', category = js ''privacy'',
       chunkIndex = 0\<rparr>,
      \<lparr>point = js '' Data Sold '', importance = js ''low'', category = js ''data'',
       chunkIndex = 0\<rparr>]"

section \<open>Trimming\<close>

lemma dropWhile_hd: "xs \<noteq> [] \<Longrightarrow> \<not> P (hd xs) \<Longrightarrow> dropWhile P xs = xs"
  by (cases xs) auto

lemma trim_id:
  assumes "s \<noteq> []" "\<not> isWhiteSpace (hd s)" "\<not> isWhiteSpace (last s)"
  shows "trim s = s"
proof -
  have a: "dropWhile isWhiteSpace s = s"
    using assms(1,2) by (rule dropWhile_hd)
  have "dropWhile isWhiteSpace (rev s) = rev s"
    using assms(1,3) by (intro dropWhile_hd) (simp_all add: hd_rev)
  with a show ?thesis by (simp add: trim_def)
qed

lemma trim_whitespace_only:
  assumes "list_all isWhiteSpace s"
  shows "trim s = []"
proof -
  from assms have d: "dropWhile isWhiteSpace s = []"
    by (induction s) auto
  show ?thesis unfolding trim_def d by simp
qed

lemma trim_plain:
  assumes "\<forall>c \<in> set A. \<not> isWhiteSpace c"
  shows "trim A = A"
proof (cases "A = []")
  case True
  then show ?thesis by (simp add: trim_def)
next
  case False
  with assms show ?thesis by (intro trim_id) simp_all
qed

lemma length_trim_le: "length (trim s) \<le> length s"
proof -
  have "length (trim s) \<le> length (dropWhile isWhiteSpace s)"
    unfolding trim_def using length_dropWhile_le [of isWhiteSpace "rev (dropWhile isWhiteSpace s)"]
    by simp
  also have "\<dots> \<le> length s" by (rule length_dropWhile_le)
  finally show ?thesis .
qed

lemma trim_keeps_text:
  assumes "\<not> isWhiteSpace c"
  shows "trim (c # s) \<noteq> []"
proof -
  have "c \<in> set (rev (dropWhile isWhiteSpace (c # s)))"
    using assms by simp
  with assms have "dropWhile isWhiteSpace (rev (dropWhile isWhiteSpace (c # s))) \<noteq> []"
    unfolding dropWhile_eq_Nil_conv by blast
  then show ?thesis by (simp add: trim_def)
qed

lemma trim_hd:
  assumes "trim s \<noteq> []"
  shows "\<not> isWhiteSpace (hd (trim s))"
proof -
  let ?d = "dropWhile isWhiteSpace s"
  have "rev (takeWhile isWhiteSpace (rev ?d) @ dropWhile isWhiteSpace (rev ?d)) = ?d"
    by (simp only: takeWhile_dropWhile_id rev_rev_ident)
  then have "rev (dropWhile isWhiteSpace (rev ?d)) @ rev (takeWhile isWhiteSpace (rev ?d)) = ?d"
    by (simp only: rev_append)
  then have d: "?d = trim s @ rev (takeWhile isWhiteSpace (rev ?d))"
    by (simp only: trim_def)
  with assms have "hd ?d = hd (trim s)"
    by (metis hd_append2)
  moreover from d assms have "?d \<noteq> []"
    by (metis append_is_Nil_conv)
  then have "\<not> isWhiteSpace (hd ?d)" by (rule hd_dropWhile)
  ultimately show ?thesis by simp
qed

lemma isWhiteSpace_LF_CR: "isWhiteSpace LF" "isWhiteSpace CR"
  by (simp_all add: isWhiteSpace_def LF_def CR_def)

section \<open>The branches of the chunker\<close>

lemma chunk_step_cases [case_names first grow split]:
  assumes "currentChunk st = [] \<Longrightarrow> chunk_step p st = st\<lparr>currentChunk := p\<rparr> \<Longrightarrow> R"
    and "currentChunk st \<noteq> [] \<Longrightarrow>
         length (currentChunk st) + 2 + length p \<le> MAX_CHUNK_SIZE \<Longrightarrow>
         chunk_step p st = st\<lparr>currentChunk := currentChunk st @ [LF, LF] @ p\<rparr> \<Longrightarrow> R"
    and "currentChunk st \<noteq> [] \<Longrightarrow>
         MAX_CHUNK_SIZE < length (currentChunk st) + 2 + length p \<Longrightarrow>
         chunk_step p st =
           \<lparr>chunks = chunks st @ [make_chunk st],
            currentChunk = slice_last CHUNK_OVERLAP (currentChunk st) @ [LF, LF] @ p,
            chunkStartIndex =
              chunkStartIndex st + (int (length (currentChunk st)) - int CHUNK_OVERLAP)\<rparr> \<Longrightarrow> R"
  shows R
proof (cases "currentChunk st = []")
  case True
  then have "chunk_step p st = st\<lparr>currentChunk := p\<rparr>"
    by (simp add: chunk_step_def)
  with True show ?thesis by (rule assms(1))
next
  case False
  show ?thesis
  proof (cases "MAX_CHUNK_SIZE < length (currentChunk st) + 2 + length p")
    case True
    with False show ?thesis
      by (intro assms(3)) (simp_all add: chunk_step_def)
  next
    case False
    with \<open>currentChunk st \<noteq> []\<close> show ?thesis
      by (intro assms(2)) (simp_all add: chunk_step_def)
  qed
qed

lemma chunkContent_cases [case_names empty too_long single multi]:
  assumes "D = [] \<or> trim D = [] \<Longrightarrow> chunkContent D = Inr [] \<Longrightarrow> R"
    and "MAX_DOCUMENT_SIZE < length (trim D) \<Longrightarrow>
         chunkContent D = Inl (Error (document_too_long (length (trim D)))) \<Longrightarrow> R"
    and "trim D \<noteq> [] \<Longrightarrow> length (trim D) \<le> MAX_CHUNK_SIZE \<Longrightarrow>
         chunkContent D =
           Inr [\<lparr>chunk_text = trim D, chunk_index = 0, chunk_total = 1,
                 chunk_start = 0, chunk_end = int (length (trim D))\<rparr>] \<Longrightarrow> R"
    and "MAX_CHUNK_SIZE < length (trim D) \<Longrightarrow> length (trim D) \<le> MAX_DOCUMENT_SIZE \<Longrightarrow>
         chunkContent D =
           Inr (set_totals (final_chunks
                  (chunk_loop (splitIntoParagraphs (trim D))
                     \<lparr>chunks = [], currentChunk = [], chunkStartIndex = 0\<rparr>))) \<Longrightarrow> R"
  shows R
proof (cases "D = [] \<or> trim D = []")
  case True
  then have "chunkContent D = Inr []"
    by (auto simp: chunkContent_def)
  with True show ?thesis by (rule assms(1))
next
  case False
  then have ne: "D \<noteq> []" "trim D \<noteq> []" by simp_all
  show ?thesis
  proof (cases "MAX_DOCUMENT_SIZE < length (trim D)")
    case True
    with ne show ?thesis
      by (intro assms(2)) (simp_all add: chunkContent_def Let_def)
  next
    case False
    note small = this
    show ?thesis
    proof (cases "length (trim D) \<le> MAX_CHUNK_SIZE")
      case True
      with ne small show ?thesis
        by (intro assms(3)) (simp_all add: chunkContent_def Let_def)
    next
      case False
      with ne small show ?thesis
        by (intro assms(4)) (simp_all add: chunkContent_def Let_def)
    qed
  qed
qed

section \<open>The chunker: empty, short and oversized documents\<close>

text \<open>
  Claim C10. For an input that is empty, or whose trimmed length is zero,
  \<^verbatim>\<open>chunkContent\<close> returns the empty sequence of chunks (it neither throws nor returns
  a single chunk), and \<^verbatim>\<open>validateContentLength\<close> reports the input invalid with the
  error \<^verbatim>\<open>No content to process\<close>.
\<close>

theorem empty_content_no_chunks:
  assumes "content = [] \<or> length (trim content) = 0"
  shows "chunkContent content = Inr [] \<and>
         validateContentLength content =
           \<lparr>valid = False, validation_error = Some (js ''No content to process''),
            validation_length = None\<rparr>"
  using assms by (simp add: chunkContent_def validateContentLength_def)

text \<open>Claim C10 at a document of a space, a line feed and a tab.\<close>

theorem empty_content_no_chunks_witness:
  "length (trim [0x20, LF, 0x09]) = 0 \<and>
   chunkContent [0x20, LF, 0x09] = Inr [] \<and>
   validateContentLength [0x20, LF, 0x09] =
     \<lparr>valid = False, validation_error = Some (js ''No content to process''),
      validation_length = None\<rparr>"
proof -
  have h: "length (trim [0x20, LF, 0x09]) = 0"
    by (simp add: trim_def isWhiteSpace_def LF_def)
  from empty_content_no_chunks [of "[0x20, LF, 0x09]"] h show ?thesis
    by simp
qed

text \<open>
  Claim C1 says that every document whose trimmed length is at most 3500 gives exactly
  one chunk. A document of two spaces has trimmed length 0 and gives no chunk at all.
\<close>

theorem single_chunk_counterexample:
  "length (trim (js ''  '')) \<le> 3500 \<and> chunkContent (js ''  '') = Inr [] \<and>
   chunkContent (js ''  '') \<noteq>
     Inr [\<lparr>chunk_text = trim (js ''  ''), chunk_index = 0, chunk_total = 1,
           chunk_start = 0, chunk_end = int (length (trim (js ''  '')))\<rparr>]"
  by (simp add: chunkContent_def trim_def js_def isWhiteSpace_def)

text \<open>
  Claim C1, amended. For every document whose trimmed length is at least 1 and at most
  3500, \<^verbatim>\<open>chunkContent\<close> returns exactly one chunk, whose text is the trimmed document,
  with index 0, total 1, start 0 and end the trimmed length.
\<close>

theorem single_chunk:
  assumes "0 < length (trim D)" and "length (trim D) \<le> 3500"
  shows "chunkContent D =
           Inr [\<lparr>chunk_text = trim D, chunk_index = 0, chunk_total = 1,
                 chunk_start = 0, chunk_end = int (length (trim D))\<rparr>]"
proof -
  from assms(1) have "D \<noteq> []" by (auto simp: trim_def)
  with assms show ?thesis
    by (simp add: chunkContent_def MAX_CHUNK_SIZE_def MAX_DOCUMENT_SIZE_def Let_def)
qed

text \<open>Claim C1, amended, at \<^verbatim>\<open>" hello "\<close>.\<close>

theorem single_chunk_witness:
  "chunkContent (js '' hello '') =
     Inr [\<lparr>chunk_text = js ''hello'', chunk_index = 0, chunk_total = 1,
           chunk_start = 0, chunk_end = 5\<rparr>]"
proof -
  have t: "trim (js '' hello '') = js ''hello''"
    by (simp add: trim_def js_def isWhiteSpace_def)
  have "0 < length (trim (js '' hello ''))" "length (trim (js '' hello '')) \<le> 3500"
    by (simp_all add: t) (simp_all add: js_def)
  from single_chunk [OF this] show ?thesis
    by (simp add: t) (simp add: js_def)
qed

text \<open>
  Claim C2. For every document whose trimmed length exceeds 50000, \<^verbatim>\<open>chunkContent\<close>
  throws and \<^verbatim>\<open>validateContentLength\<close> returns an invalid result; the message of
  each carries the measured trimmed length and the limit of 50000, and the validation
  result carries the measured length in its own field as well.
\<close>

theorem size_ceiling:
  assumes "50000 < length (trim D)"
  shows "chunkContent D =
           Inl (Error (js ''Document too long ('' @ showNat (length (trim D))
                  @ js '' chars). Maximum supported: '' @ js ''50000'' @ js '' chars.'')) \<and>
         validateContentLength D =
           \<lparr>valid = False,
            validation_error =
              Some (js ''Content too long ('' @ showNat (length (trim D))
                  @ js '' chars). Maximum: '' @ js ''50000'' @ js '' chars.''),
            validation_length = Some (length (trim D))\<rparr>"
proof -
  have s: "showNat MAX_DOCUMENT_SIZE = js ''50000''"
    by (simp add: MAX_DOCUMENT_SIZE_def showNat.simps js_def digit_def)
  from assms have "trim D \<noteq> []" by auto
  moreover from assms have "D \<noteq> []" by (auto simp: trim_def)
  ultimately show ?thesis using assms
    by (simp add: chunkContent_def validateContentLength_def document_too_long_def
        content_too_long_def s Let_def) (simp add: MAX_DOCUMENT_SIZE_def)
qed

text \<open>Claim C2 at a document of 50001 letters \<^verbatim>\<open>a\<close>.\<close>

theorem size_ceiling_witness:
  "chunkContent (replicate 50001 0x61) =
     Inl (Error (js ''Document too long (50001 chars). Maximum supported: 50000 chars.'')) \<and>
   validateContentLength (replicate 50001 0x61) =
     \<lparr>valid = False,
      validation_error = Some (js ''Content too long (50001 chars). Maximum: 50000 chars.''),
      validation_length = Some 50001\<rparr>"
proof -
  have t: "trim (replicate 50001 0x61) = replicate 50001 0x61"
    by (rule trim_id) (simp_all add: isWhiteSpace_def)
  have h: "50000 < length (trim (replicate 50001 (0x61 :: jschar)))"
    by (simp add: t)
  have s: "showNat 50001 = js ''50001''"
    by (simp add: showNat.simps js_def digit_def)
  from size_ceiling [OF h] show ?thesis
    by (simp add: t s) (simp add: js_def)
qed

section \<open>Documents of two paragraphs\<close>

lemma split_separator_plain:
  assumes "\<forall>c \<in> set xs. \<not> isWhiteSpace c"
  shows "split_separator cur (xs @ rest) = split_separator (cur @ xs) rest"
  using assms
proof (induction xs arbitrary: cur)
  case Nil
  then show ?case by simp
next
  case (Cons x xs)
  then have "x \<noteq> LF" "x \<noteq> CR"
    using isWhiteSpace_LF_CR by auto
  then have "match_separator (x # xs @ rest) = None"
    by (simp add: match_separator_def split: list.splits)
  with Cons show ?case by simp
qed

lemma dropWhile_LF_plain:
  assumes "\<forall>c \<in> set B. \<not> isWhiteSpace c"
  shows "dropWhile (\<lambda>c. c = LF) B = B"
  using assms isWhiteSpace_LF_CR(1) by (cases B) auto

lemma split_two_paragraphs:
  assumes A: "\<forall>c \<in> set A. \<not> isWhiteSpace c" and B: "\<forall>c \<in> set B. \<not> isWhiteSpace c"
    and sep: "sep = [LF, LF] \<or> sep = [LF, LF, LF]"
  shows "split_separator [] (A @ sep @ B) = [A, B]"
proof -
  have "split_separator [] (A @ sep @ B) = split_separator A (sep @ B)"
    using split_separator_plain [OF A, of "[]"] by simp
  also have "\<dots> = A # split_separator [] B"
    using sep dropWhile_LF_plain [OF B]
    by (auto simp: match_separator_def)
  also have "split_separator [] B = [B]"
    using split_separator_plain [OF B, of "[]" "[]"] by simp
  finally show ?thesis .
qed

lemma two_paragraphs:
  assumes A: "\<forall>c \<in> set A. \<not> isWhiteSpace c" and B: "\<forall>c \<in> set B. \<not> isWhiteSpace c"
    and ne: "A \<noteq> []" "B \<noteq> []"
    and sep: "sep = [LF, LF] \<or> sep = [LF, LF, LF]"
    and big: "MAX_CHUNK_SIZE < length A + 2 + length B"
    and small: "length (A @ sep @ B) \<le> MAX_DOCUMENT_SIZE"
  shows "trim (A @ sep @ B) = A @ sep @ B"
    and "splitIntoParagraphs (A @ sep @ B) = [A, B]"
    and "chunkContent (A @ sep @ B) =
           Inr [\<lparr>chunk_text = A, chunk_index = 0, chunk_total = 2,
                 chunk_start = 0, chunk_end = int (length A)\<rparr>,
                \<lparr>chunk_text = slice_last CHUNK_OVERLAP A @ [LF, LF] @ B,
                 chunk_index = 1, chunk_total = 2,
                 chunk_start = int (length A) - int CHUNK_OVERLAP,
                 chunk_end = int (length A) - int CHUNK_OVERLAP
                   + int (length (slice_last CHUNK_OVERLAP A @ [LF, LF] @ B))\<rparr>]"
proof -
  let ?D = "A @ sep @ B"
  show t: "trim ?D = ?D"
    using A B ne by (intro trim_id) simp_all
  show ps: "splitIntoParagraphs ?D = [A, B]"
    using ne by (simp add: splitIntoParagraphs_def split_two_paragraphs [OF A B sep]
        trim_plain [OF A] trim_plain [OF B])
  from sep big have "MAX_CHUNK_SIZE < length ?D" by auto
  with small have "chunkContent ?D =
      Inr (set_totals (final_chunks (chunk_loop (splitIntoParagraphs ?D)
        \<lparr>chunks = [], currentChunk = [], chunkStartIndex = 0\<rparr>)))"
    by (cases ?D rule: chunkContent_cases) (simp_all add: t)
  also have "chunk_loop (splitIntoParagraphs ?D)
        \<lparr>chunks = [], currentChunk = [], chunkStartIndex = 0\<rparr> =
      \<lparr>chunks = [\<lparr>chunk_text = A, chunk_index = 0, chunk_total = 0,
                  chunk_start = 0, chunk_end = int (length A)\<rparr>],
       currentChunk = slice_last CHUNK_OVERLAP A @ [LF, LF] @ B,
       chunkStartIndex = int (length A) - int CHUNK_OVERLAP\<rparr>"
    using ne big by (simp add: ps chunk_step_def make_chunk_def)
  finally show "chunkContent ?D = Inr [\<lparr>chunk_text = A, chunk_index = 0, chunk_total = 2,
                 chunk_start = 0, chunk_end = int (length A)\<rparr>,
                \<lparr>chunk_text = slice_last CHUNK_OVERLAP A @ [LF, LF] @ B,
                 chunk_index = 1, chunk_total = 2,
                 chunk_start = int (length A) - int CHUNK_OVERLAP,
                 chunk_end = int (length A) - int CHUNK_OVERLAP
                   + int (length (slice_last CHUNK_OVERLAP A @ [LF, LF] @ B))\<rparr>]"
    by (simp add: final_chunks_def set_totals_def make_chunk_def)
qed

lemma letters_plain:
  "\<not> isWhiteSpace c \<Longrightarrow> \<forall>x \<in> set (replicate n c). \<not> isWhiteSpace x"
  by simp

lemma not_white_a_b: "\<not> isWhiteSpace 0x61" "\<not> isWhiteSpace 0x62"
  by (simp_all add: isWhiteSpace_def)

lemma sample_document_chunks:
  "trim sample_document = sample_document"
  "splitIntoParagraphs sample_document = [replicate 3000 0x61, replicate 3000 0x62]"
  "chunkContent sample_document = Inr sample_chunks"
proof -
  note tp = two_paragraphs [of "replicate 3000 0x61" "replicate 3000 0x62" "[LF, LF]",
      OF letters_plain [OF not_white_a_b(1)] letters_plain [OF not_white_a_b(2)]]
  have side: "replicate 3000 (0x61 :: jschar) \<noteq> []" "replicate 3000 (0x62 :: jschar) \<noteq> []"
    "[LF, LF] = [LF, LF] \<or> [LF, LF] = [LF, LF, LF]"
    "MAX_CHUNK_SIZE < length (replicate 3000 (0x61 :: jschar)) + 2 + length (replicate 3000 (0x62 :: jschar))"
    "length (replicate 3000 (0x61 :: jschar) @ [LF, LF] @ replicate 3000 0x62) \<le> MAX_DOCUMENT_SIZE"
    by (simp_all add: MAX_CHUNK_SIZE_def MAX_DOCUMENT_SIZE_def)
  show "trim sample_document = sample_document"
    unfolding sample_document_def by (rule tp(1) [OF side])
  show "splitIntoParagraphs sample_document = [replicate 3000 0x61, replicate 3000 0x62]"
    unfolding sample_document_def by (rule tp(2) [OF side])
  show "chunkContent sample_document = Inr sample_chunks"
    using tp(3) [OF side]
    by (simp add: sample_document_def sample_chunks_def slice_last_def CHUNK_OVERLAP_def)
qed

section \<open>Indices and totals\<close>

lemma indexed_snoc:
  "indexed cs \<Longrightarrow> chunk_index c = length cs \<Longrightarrow> indexed (cs @ [c])"
  by (auto simp: indexed_def nth_append less_Suc_eq)

lemma chunk_step_index:
  assumes "indexed (chunks st)"
  shows "indexed (chunks (chunk_step p st))"
proof (cases p st rule: chunk_step_cases)
  case split
  moreover have "chunk_index (make_chunk st) = length (chunks st)"
    by (simp add: make_chunk_def)
  ultimately show ?thesis using assms by (simp add: indexed_snoc)
qed (use assms in simp_all)

lemma chunk_loop_index:
  "indexed (chunks st) \<Longrightarrow> indexed (chunks (chunk_loop ps st))"
proof (induction ps arbitrary: st)
  case Nil
  then show ?case by simp
next
  case (Cons p ps)
  from Cons.prems have "indexed (chunks (chunk_step p st))"
    by (rule chunk_step_index)
  then have "indexed (chunks (chunk_loop ps (chunk_step p st)))"
    by (rule Cons.IH)
  then show ?case by simp
qed

lemma final_chunks_index:
  assumes "indexed (chunks st)"
  shows "indexed (final_chunks st)"
proof (cases "length (currentChunk st) > 0")
  case True
  have "chunk_index (make_chunk st) = length (chunks st)"
    by (simp add: make_chunk_def)
  with assms True show ?thesis
    by (simp add: final_chunks_def indexed_snoc)
next
  case False
  with assms show ?thesis by (simp add: final_chunks_def)
qed

lemma set_totals_index: "indexed (set_totals cs) = indexed cs"
  by (simp add: set_totals_def indexed_def)

lemma length_set_totals: "length (set_totals cs) = length cs"
  by (simp add: set_totals_def)

lemma set_totals_total: "c \<in> set (set_totals cs) \<Longrightarrow> chunk_total c = length cs"
  by (auto simp: set_totals_def)

lemma indexed_map:
  assumes "indexed cs"
  shows "map chunk_index cs = [0..<length cs]"
  by (rule nth_equalityI) (use assms in \<open>simp_all add: indexed_def\<close>)

lemma indexed_bound:
  assumes "indexed cs" and "c \<in> set cs"
  shows "chunk_index c < length cs"
proof -
  from assms(2) obtain i where "i < length cs" "cs ! i = c"
    by (auto simp: in_set_conv_nth)
  with assms(1) show ?thesis by (auto simp: indexed_def)
qed

lemma chunkContent_indexed:
  assumes "chunkContent D = Inr cs"
  shows "indexed cs \<and> (\<forall>c \<in> set cs. chunk_total c = length cs)"
proof (cases D rule: chunkContent_cases)
  case empty
  with assms show ?thesis by (simp add: indexed_def)
next
  case too_long
  with assms show ?thesis by simp
next
  case single
  with assms show ?thesis by (auto simp: indexed_def)
next
  case multi
  define st where "st = chunk_loop (splitIntoParagraphs (trim D))
      \<lparr>chunks = [], currentChunk = [], chunkStartIndex = 0\<rparr>"
  from multi assms have cs: "cs = set_totals (final_chunks st)"
    by (simp add: st_def)
  have "indexed (chunks st)"
    unfolding st_def by (rule chunk_loop_index) (simp add: indexed_def)
  then have "indexed (final_chunks st)"
    by (rule final_chunks_index)
  then have "indexed cs"
    by (simp add: cs set_totals_index)
  moreover have "\<forall>c \<in> set cs. chunk_total c = length cs"
    by (auto simp: cs length_set_totals dest: set_totals_total)
  ultimately show ?thesis by simp
qed

text \<open>
  Claim C5. For every document that \<^verbatim>\<open>chunkContent\<close> accepts, the indices of the
  chunks returned are 0, 1, ..., one less than their number, in this order, every chunk
  carries that number as its total, and so every index is below the total.
\<close>

theorem total_consistency:
  assumes "chunkContent D = Inr cs"
  shows "map chunk_index cs = [0..<length cs] \<and>
         (\<forall>c \<in> set cs. chunk_total c = length cs \<and> chunk_index c < chunk_total c)"
  using chunkContent_indexed [OF assms]
  by (auto simp: indexed_map dest: indexed_bound)

text \<open>Claim C5 at the document of two paragraphs of 3000 letters.\<close>

theorem total_consistency_witness:
  "chunkContent sample_document = Inr sample_chunks \<and>
   map chunk_index sample_chunks = [0, 1] \<and>
   map chunk_total sample_chunks = [2, 2]"
proof -
  note res = sample_document_chunks(3)
  from total_consistency [OF res] res show ?thesis
    by (simp add: sample_chunks_def)
qed

section \<open>The size of a chunk\<close>

text \<open>
  Claim C3 bounds every chunk by 3500 characters when every paragraph has at most 3500.
  The document of a paragraph of 3000 letters \<^verbatim>\<open>a\<close>, a blank line and a paragraph of
  3400 letters \<^verbatim>\<open>b\<close> has these two paragraphs, and \<^verbatim>\<open>chunkContent\<close> returns two
  chunks for it, the second of 3602 characters: the 200 characters of overlap, the
  separator and the second paragraph.
\<close>

theorem overlap_exceeds_chunk_size:
  "splitIntoParagraphs (trim (replicate 3000 0x61 @ [LF, LF] @ replicate 3400 0x62)) =
     [replicate 3000 0x61, replicate 3400 0x62] \<and>
   chunkContent (replicate 3000 0x61 @ [LF, LF] @ replicate 3400 0x62) =
     Inr [\<lparr>chunk_text = replicate 3000 0x61, chunk_index = 0, chunk_total = 2,
           chunk_start = 0, chunk_end = 3000\<rparr>,
          \<lparr>chunk_text = replicate 200 0x61 @ [LF, LF] @ replicate 3400 0x62,
           chunk_index = 1, chunk_total = 2, chunk_start = 2800, chunk_end = 6402\<rparr>] \<and>
   length (replicate 200 (0x61 :: jschar) @ [LF, LF] @ replicate 3400 0x62) = 3602"
proof -
  note tp = two_paragraphs [of "replicate 3000 0x61" "replicate 3400 0x62" "[LF, LF]",
      OF letters_plain [OF not_white_a_b(1)] letters_plain [OF not_white_a_b(2)]]
  have side: "replicate 3000 (0x61 :: jschar) \<noteq> []" "replicate 3400 (0x62 :: jschar) \<noteq> []"
    "[LF, LF] = [LF, LF] \<or> [LF, LF] = [LF, LF, LF]"
    "MAX_CHUNK_SIZE < length (replicate 3000 (0x61 :: jschar)) + 2 + length (replicate 3400 (0x62 :: jschar))"
    "length (replicate 3000 (0x61 :: jschar) @ [LF, LF] @ replicate 3400 0x62) \<le> MAX_DOCUMENT_SIZE"
    by (simp_all add: MAX_CHUNK_SIZE_def MAX_DOCUMENT_SIZE_def)
  from tp(1) [OF side] tp(2) [OF side] tp(3) [OF side] show ?thesis
    by (simp add: slice_last_def CHUNK_OVERLAP_def)
qed

section \<open>The offsets of the chunks\<close>

lemma chained_snoc:
  "chained s (cs @ [c]) \<longleftrightarrow>
     chained s cs \<and> chunk_start c = next_start s cs \<and>
     chunk_end c = chunk_start c + int (length (chunk_text c))"
  by (induction cs arbitrary: s) auto

lemma next_start_snoc: "next_start s (cs @ [c]) = chunk_end c - int CHUNK_OVERLAP"
  by (induction cs arbitrary: s) auto

lemma length_slice_last: "length (slice_last n s) = min n (length s)"
  by (simp add: slice_last_def)

lemma make_chunk_sel:
  "chunk_text (make_chunk st) = currentChunk st"
  "chunk_start (make_chunk st) = chunkStartIndex st"
  "chunk_end (make_chunk st) = chunkStartIndex st + int (length (currentChunk st))"
  by (simp_all add: make_chunk_def)

lemma tl_snoc: "tl (xs @ [x]) = (if xs = [] then [] else tl xs @ [x])"
  by (cases xs) simp_all

lemma chunk_step_offsets:
  assumes "offsets_inv st"
  shows "offsets_inv (chunk_step p st)"
proof (cases p st rule: chunk_step_cases)
  case first
  with assms show ?thesis
    by (auto simp: offsets_inv_def CHUNK_OVERLAP_def)
next
  case grow
  with assms show ?thesis
    by (auto simp: offsets_inv_def)
next
  case split
  have long: "CHUNK_OVERLAP \<le> length (slice_last CHUNK_OVERLAP (currentChunk st) @ [LF, LF] @ p)"
    using split(2) by (simp add: length_slice_last CHUNK_OVERLAP_def MAX_CHUNK_SIZE_def)
  from assms have a: "chained 0 (chunks st)" "chunkStartIndex st = next_start 0 (chunks st)"
    "\<forall>c \<in> set (tl (chunks st)). CHUNK_OVERLAP \<le> length (chunk_text c)"
    "chunks st \<noteq> [] \<Longrightarrow> CHUNK_OVERLAP \<le> length (currentChunk st)"
    by (simp_all add: offsets_inv_def)
  have "chained 0 (chunks st @ [make_chunk st])"
    using a(1,2) by (simp add: chained_snoc make_chunk_sel)
  moreover have "chunkStartIndex st + (int (length (currentChunk st)) - int CHUNK_OVERLAP) =
      next_start 0 (chunks st @ [make_chunk st])"
    by (simp add: next_start_snoc make_chunk_sel)
  moreover have "\<forall>c \<in> set (tl (chunks st @ [make_chunk st])). CHUNK_OVERLAP \<le> length (chunk_text c)"
    using a(3,4) by (auto simp: tl_snoc make_chunk_sel)
  ultimately show ?thesis
    using long by (simp add: offsets_inv_def split(3))
qed

lemma chunk_loop_offsets:
  "offsets_inv st \<Longrightarrow> offsets_inv (chunk_loop ps st)"
proof (induction ps arbitrary: st)
  case Nil
  then show ?case by simp
next
  case (Cons p ps)
  from Cons.prems have "offsets_inv (chunk_step p st)"
    by (rule chunk_step_offsets)
  then have "offsets_inv (chunk_loop ps (chunk_step p st))"
    by (rule Cons.IH)
  then show ?case by simp
qed

lemma final_chunks_offsets:
  assumes "offsets_inv st"
  shows "chained 0 (final_chunks st)"
    and "\<forall>c \<in> set (tl (final_chunks st)). CHUNK_OVERLAP \<le> length (chunk_text c)"
  using assms
  by (auto simp: offsets_inv_def final_chunks_def chained_snoc make_chunk_sel tl_snoc)

lemma chained_set_total:
  "chained s (map (\<lambda>c. c\<lparr>chunk_total := n\<rparr>) cs) = chained s cs"
  by (induction cs arbitrary: s) simp_all

lemma chained_set_totals: "chained s (set_totals cs) = chained s cs"
  by (simp add: set_totals_def chained_set_total)

lemma chained_cover:
  assumes "chained s cs" and "cs \<noteq> []"
    and "\<forall>c \<in> set cs. CHUNK_OVERLAP \<le> length (chunk_text c)"
  shows "(\<forall>c \<in> set cs. s \<le> chunk_start c) \<and> sorted (map chunk_start cs) \<and>
         s + int CHUNK_OVERLAP \<le> chunk_end (last cs) \<and>
         (\<Union>c \<in> set cs. {chunk_start c ..< chunk_end c}) = {s ..< chunk_end (last cs)}"
  using assms
proof (induction cs arbitrary: s)
  case Nil
  then show ?case by simp
next
  case (Cons c cs)
  from Cons.prems have c: "chunk_start c = s" "chunk_end c = s + int (length (chunk_text c))"
    "chained (chunk_end c - int CHUNK_OVERLAP) cs" "CHUNK_OVERLAP \<le> length (chunk_text c)"
    by auto
  show ?case
  proof (cases "cs = []")
    case True
    with c show ?thesis by simp
  next
    case False
    let ?s' = "chunk_end c - int CHUNK_OVERLAP"
    from Cons.prems have "\<forall>c \<in> set cs. CHUNK_OVERLAP \<le> length (chunk_text c)" by simp
    from Cons.IH [OF c(3) False this]
    have ih: "\<forall>c \<in> set cs. ?s' \<le> chunk_start c" "sorted (map chunk_start cs)"
      "?s' + int CHUNK_OVERLAP \<le> chunk_end (last cs)"
      "(\<Union>c \<in> set cs. {chunk_start c ..< chunk_end c}) = {?s' ..< chunk_end (last cs)}"
      by simp_all
    from c have le: "s \<le> ?s'" by simp
    have 1: "\<forall>d \<in> set (c # cs). s \<le> chunk_start d"
      using c(1) ih(1) le by auto
    have 2: "sorted (map chunk_start (c # cs))"
      using ih(2) 1 c(1) by simp
    have 3: "s + int CHUNK_OVERLAP \<le> chunk_end (last (c # cs))"
      using False ih(3) c by simp
    have "(\<Union>d \<in> set (c # cs). {chunk_start d ..< chunk_end d}) =
        {s ..< chunk_end c} \<union> {?s' ..< chunk_end (last cs)}"
      using ih(4) c(1) by simp
    also have "\<dots> = {s ..< chunk_end (last cs)}"
      using le ih(3) by auto
    finally have 4: "(\<Union>d \<in> set (c # cs). {chunk_start d ..< chunk_end d}) =
        {s ..< chunk_end (last (c # cs))}"
      using False by simp
    from 1 2 3 4 show ?thesis by blast
  qed
qed

lemma chained_hd: "chained s cs \<Longrightarrow> cs \<noteq> [] \<Longrightarrow> chunk_start (hd cs) = s"
  by (cases cs) simp_all

lemma chained_length:
  "chained s cs \<Longrightarrow> \<forall>c \<in> set cs. chunk_end c - chunk_start c = int (length (chunk_text c))"
  by (induction cs arbitrary: s) auto

lemma chained_next:
  "chained s cs \<Longrightarrow> Suc i < length cs \<Longrightarrow>
   chunk_start (cs ! Suc i) = chunk_end (cs ! i) - int CHUNK_OVERLAP"
proof (induction cs arbitrary: s i)
  case Nil
  then show ?case by simp
next
  case (Cons c cs)
  show ?case
  proof (cases i)
    case 0
    with Cons.prems show ?thesis by (cases cs) simp_all
  next
    case (Suc j)
    with Cons.prems Cons.IH [of "chunk_end c - int CHUNK_OVERLAP" j] show ?thesis by auto
  qed
qed

subsection \<open>The end of the last chunk\<close>

lemma join_snoc: "join sep (xs @ [x]) = (if xs = [] then x else join sep xs @ sep @ x)"
  by (induction sep xs rule: join.induct) auto

lemma chunk_step_length:
  assumes inv: "length_inv processed st" and p: "p \<noteq> []"
  shows "length_inv (processed @ [p]) (chunk_step p st)"
proof -
  from inv have a: "currentChunk st = [] \<longleftrightarrow> processed = []"
    "processed = [] \<Longrightarrow> chunks st = []"
    "chunkStartIndex st + int (length (currentChunk st)) \<le> int (length (join [LF, LF] processed))"
    "\<forall>c \<in> set (chunks st). CHUNK_OVERLAP \<le> length (chunk_text c) \<Longrightarrow>
       chunkStartIndex st + int (length (currentChunk st)) = int (length (join [LF, LF] processed))"
    by (simp_all add: length_inv_def)
  show ?thesis
  proof (cases p st rule: chunk_step_cases)
    case first
    with a have "processed = []" "chunks st = []" by simp_all
    with a(4) first have "chunkStartIndex st = 0" by simp
    with first p \<open>processed = []\<close> \<open>chunks st = []\<close> show ?thesis
      by (simp add: length_inv_def)
  next
    case grow
    with a(1) have ne: "processed \<noteq> []" by simp
    with grow a(3,4) p show ?thesis
      by (auto simp: length_inv_def join_snoc)
  next
    case split
    with a(1) have ne: "processed \<noteq> []" by simp
    have le: "chunkStartIndex st + (int (length (currentChunk st)) - int CHUNK_OVERLAP)
        + int (length (slice_last CHUNK_OVERLAP (currentChunk st) @ [LF, LF] @ p))
        \<le> int (length (join [LF, LF] (processed @ [p])))"
      using a(3) ne by (simp add: join_snoc length_slice_last)
    have eq: "chunkStartIndex st + (int (length (currentChunk st)) - int CHUNK_OVERLAP)
        + int (length (slice_last CHUNK_OVERLAP (currentChunk st) @ [LF, LF] @ p))
        = int (length (join [LF, LF] (processed @ [p])))"
      if "\<forall>c \<in> set (chunks st @ [make_chunk st]). CHUNK_OVERLAP \<le> length (chunk_text c)"
    proof -
      from that have "CHUNK_OVERLAP \<le> length (currentChunk st)"
        and "\<forall>c \<in> set (chunks st). CHUNK_OVERLAP \<le> length (chunk_text c)"
        by (simp_all add: make_chunk_sel)
      with a(4) ne show ?thesis
        by (simp add: join_snoc length_slice_last)
    qed
    from le eq ne show ?thesis
      by (simp add: length_inv_def split(3))
  qed
qed

lemma chunk_loop_length:
  "length_inv processed st \<Longrightarrow> \<forall>p \<in> set ps. p \<noteq> [] \<Longrightarrow>
   length_inv (processed @ ps) (chunk_loop ps st)"
proof (induction ps arbitrary: processed st)
  case Nil
  then show ?case by simp
next
  case (Cons p ps)
  from Cons.prems have "length_inv (processed @ [p]) (chunk_step p st)"
    by (intro chunk_step_length) simp_all
  moreover from Cons.prems have "\<forall>p \<in> set ps. p \<noteq> []" by simp
  ultimately have "length_inv ((processed @ [p]) @ ps) (chunk_loop ps (chunk_step p st))"
    by (rule Cons.IH)
  then show ?case by simp
qed

lemma length_join:
  "length (join sep ps) = sum_list (map length ps) + length sep * (length ps - 1)"
  by (induction sep ps rule: join.induct) simp_all

lemma match_separator_shorter:
  "match_separator s = Some r \<Longrightarrow> length r + 2 \<le> length s"
  by (auto simp: match_separator_def length_dropWhile_le le_SucI
      split: list.splits if_splits)

lemma split_separator_nonempty: "split_separator cur s \<noteq> []"
  by (induction cur s rule: split_separator.induct) (auto split: option.splits)

lemma split_separator_length:
  "sum_list (map length (split_separator cur s)) + 2 * (length (split_separator cur s) - 1)
     \<le> length cur + length s"
proof (induction cur s rule: split_separator.induct)
  case (1 cur)
  then show ?case by simp
next
  case (2 cur c cs)
  show ?case
  proof (cases "match_separator (c # cs)")
    case None
    with 2 show ?thesis by simp
  next
    case (Some rest)
    from 2(2) [OF Some]
    have ih: "sum_list (map length (split_separator [] rest))
        + 2 * (length (split_separator [] rest) - 1) \<le> length rest"
      by simp
    have "length (split_separator [] rest) \<ge> 1"
      using split_separator_nonempty [of "[]" rest]
      by (cases "split_separator [] rest") simp_all
    with ih match_separator_shorter [OF Some] Some show ?thesis
      by simp
  qed
qed

lemma sum_length_paragraphs:
  "sum_list (map length (filter P (map trim xs))) \<le> sum_list (map length xs)"
proof (induction xs)
  case Nil
  then show ?case by simp
next
  case (Cons x xs)
  with length_trim_le [of x] show ?case by auto
qed

lemma paragraphs_length: "length (join [LF, LF] (splitIntoParagraphs s)) \<le> length s"
proof -
  let ?raw = "split_separator [] s"
  let ?ps = "splitIntoParagraphs s"
  have "length ?ps \<le> length ?raw"
    unfolding splitIntoParagraphs_def
    using length_filter_le [of "\<lambda>p. length p > 0" "map trim ?raw"] by simp
  moreover have "sum_list (map length ?ps) \<le> sum_list (map length ?raw)"
    unfolding splitIntoParagraphs_def by (rule sum_length_paragraphs)
  ultimately have "length (join [LF, LF] ?ps)
      \<le> sum_list (map length ?raw) + 2 * (length ?raw - 1)"
    by (simp add: length_join)
  also have "\<dots> \<le> length s"
    using split_separator_length [of "[]" s] by simp
  finally show ?thesis .
qed

lemma paragraphs_not_empty: "\<forall>p \<in> set (splitIntoParagraphs s). p \<noteq> []"
  by (simp add: splitIntoParagraphs_def)

lemma split_separator_prefix: "\<exists>p ps. split_separator cur s = (cur @ p) # ps"
proof (induction cur s rule: split_separator.induct)
  case (1 cur)
  then show ?case by simp
next
  case (2 cur c cs)
  show ?case
  proof (cases "match_separator (c # cs)")
    case None
    with 2(1) obtain p ps where "split_separator (cur @ [c]) cs = ((cur @ [c]) @ p) # ps"
      by blast
    with None have "split_separator cur (c # cs) = (cur @ (c # p)) # ps" by simp
    then show ?thesis by blast
  next
    case (Some rest)
    then have "split_separator cur (c # cs) = (cur @ []) # split_separator [] rest" by simp
    then show ?thesis by blast
  qed
qed

lemma paragraphs_exist:
  assumes "s \<noteq> []" and "\<not> isWhiteSpace (hd s)"
  shows "splitIntoParagraphs s \<noteq> []"
proof -
  from assms obtain c cs where s: "s = c # cs" and c: "\<not> isWhiteSpace c"
    by (cases s) auto
  from c have "c \<noteq> LF" "c \<noteq> CR" using isWhiteSpace_LF_CR by auto
  then have "match_separator (c # cs) = None"
    by (simp add: match_separator_def split: list.splits)
  then have "split_separator [] s = split_separator [c] cs" by (simp add: s)
  with split_separator_prefix [of "[c]" cs]
  obtain p ps where "split_separator [] s = (c # p) # ps" by auto
  then have "trim (c # p) \<in> set (map trim (split_separator [] s))" by simp
  with trim_keeps_text [OF c, of p] show ?thesis
    unfolding splitIntoParagraphs_def by (auto simp: filter_empty_conv)
qed

lemma set_totals_last:
  "x \<noteq> [] \<Longrightarrow> chunk_end (last (set_totals x)) = chunk_end (last x)"
  by (simp add: set_totals_def last_map)

lemma set_totals_hd:
  "x \<noteq> [] \<Longrightarrow> chunk_text (hd (set_totals x)) = chunk_text (hd x)"
  by (simp add: set_totals_def hd_map)

lemma set_totals_tl:
  "(\<forall>c \<in> set (tl (set_totals x)). n \<le> length (chunk_text c)) \<longleftrightarrow>
   (\<forall>c \<in> set (tl x). n \<le> length (chunk_text c))"
  by (cases x) (simp_all add: set_totals_def)

lemma set_totals_Nil: "set_totals x = [] \<longleftrightarrow> x = []"
  by (simp add: set_totals_def)

lemma chunkContent_offsets:
  assumes res: "chunkContent D = Inr cs" and ne: "trim D \<noteq> []"
  shows "cs \<noteq> []" and "chained 0 cs"
    and "\<forall>c \<in> set (tl cs). CHUNK_OVERLAP \<le> length (chunk_text c)"
    and "chunk_end (last cs) \<le> int (length (trim D))"
    and "(2 \<le> length cs \<Longrightarrow> CHUNK_OVERLAP \<le> length (chunk_text (hd cs))) \<Longrightarrow>
         length (trim D) \<le> MAX_CHUNK_SIZE \<or> join [LF, LF] (splitIntoParagraphs (trim D)) = trim D \<Longrightarrow>
         chunk_end (last cs) = int (length (trim D))"
proof -
  have "cs \<noteq> [] \<and> chained 0 cs \<and>
      (\<forall>c \<in> set (tl cs). CHUNK_OVERLAP \<le> length (chunk_text c)) \<and>
      chunk_end (last cs) \<le> int (length (trim D)) \<and>
      ((2 \<le> length cs \<longrightarrow> CHUNK_OVERLAP \<le> length (chunk_text (hd cs))) \<longrightarrow>
       length (trim D) \<le> MAX_CHUNK_SIZE \<or> join [LF, LF] (splitIntoParagraphs (trim D)) = trim D \<longrightarrow>
       chunk_end (last cs) = int (length (trim D)))"
  proof (cases D rule: chunkContent_cases)
    case empty
    with ne show ?thesis by (auto simp: trim_def)
  next
    case too_long
    with res show ?thesis by simp
  next
    case single
    with res have "cs = [\<lparr>chunk_text = trim D, chunk_index = 0, chunk_total = 1,
        chunk_start = 0, chunk_end = int (length (trim D))\<rparr>]"
      by simp
    then show ?thesis by simp
  next
    case multi
    let ?ps = "splitIntoParagraphs (trim D)"
    define st where "st = chunk_loop ?ps \<lparr>chunks = [], currentChunk = [], chunkStartIndex = 0\<rparr>"
    from multi res have cs: "cs = set_totals (final_chunks st)"
      by (simp add: st_def)
    have ps: "?ps \<noteq> []"
      using ne trim_hd [OF ne] by (rule paragraphs_exist)
    have off: "offsets_inv st"
      unfolding st_def by (rule chunk_loop_offsets) (simp add: offsets_inv_def)
    have "length_inv ([] @ ?ps) st"
      unfolding st_def
      by (rule chunk_loop_length) (simp_all add: length_inv_def paragraphs_not_empty)
    then have len: "length_inv ?ps st" by simp
    with ps have cur: "currentChunk st \<noteq> []"
      by (simp add: length_inv_def)
    then have fin: "final_chunks st = chunks st @ [make_chunk st]"
      by (simp add: final_chunks_def)
    then have fne: "final_chunks st \<noteq> []" by simp
    have 1: "cs \<noteq> []"
      using fne by (simp add: cs set_totals_Nil)
    have 2: "chained 0 cs"
      using final_chunks_offsets(1) [OF off] by (simp add: cs chained_set_totals)
    have 3: "\<forall>c \<in> set (tl cs). CHUNK_OVERLAP \<le> length (chunk_text c)"
      using final_chunks_offsets(2) [OF off] by (simp add: cs set_totals_tl)
    have e: "chunk_end (last cs) = chunkStartIndex st + int (length (currentChunk st))"
      by (simp add: cs set_totals_last [OF fne]) (simp add: fin make_chunk_sel)
    have "chunk_end (last cs) \<le> int (length (join [LF, LF] ?ps))"
      using len by (simp add: e length_inv_def)
    also have "\<dots> \<le> int (length (trim D))"
      using paragraphs_length [of "trim D"] by simp
    finally have 4: "chunk_end (last cs) \<le> int (length (trim D))" .
    have 5: "chunk_end (last cs) = int (length (trim D))"
      if first: "2 \<le> length cs \<longrightarrow> CHUNK_OVERLAP \<le> length (chunk_text (hd cs))"
        and whole: "length (trim D) \<le> MAX_CHUNK_SIZE \<or> join [LF, LF] ?ps = trim D"
    proof -
      from whole multi(1) have j: "join [LF, LF] ?ps = trim D" by simp
      have "\<forall>c \<in> set (chunks st). CHUNK_OVERLAP \<le> length (chunk_text c)"
      proof (cases "chunks st")
        case Nil
        then show ?thesis by simp
      next
        case (Cons c rest)
        have "chunk_text (hd cs) = chunk_text (hd (final_chunks st))"
          unfolding cs by (rule set_totals_hd [OF fne])
        with Cons have "2 \<le> length cs" "chunk_text (hd cs) = chunk_text c"
          by (simp_all add: cs length_set_totals fin)
        with first have "CHUNK_OVERLAP \<le> length (chunk_text c)" by simp
        moreover from off Cons have "\<forall>c \<in> set rest. CHUNK_OVERLAP \<le> length (chunk_text c)"
          by (simp add: offsets_inv_def)
        ultimately show ?thesis using Cons by simp
      qed
      with len have "chunkStartIndex st + int (length (currentChunk st)) =
          int (length (join [LF, LF] ?ps))"
        by (simp add: length_inv_def)
      with e j show ?thesis by simp
    qed
    from 1 2 3 4 5 show ?thesis by blast
  qed
  then show "cs \<noteq> []" and "chained 0 cs"
    and "\<forall>c \<in> set (tl cs). CHUNK_OVERLAP \<le> length (chunk_text c)"
    and "chunk_end (last cs) \<le> int (length (trim D))"
    and "(2 \<le> length cs \<Longrightarrow> CHUNK_OVERLAP \<le> length (chunk_text (hd cs))) \<Longrightarrow>
         length (trim D) \<le> MAX_CHUNK_SIZE \<or> join [LF, LF] (splitIntoParagraphs (trim D)) = trim D \<Longrightarrow>
         chunk_end (last cs) = int (length (trim D))"
    by blast+
qed

text \<open>
  Claim C4 says that the start offsets never decrease and that the ranges of the chunks
  cover the trimmed document. With three line feeds between two paragraphs of 3000
  letters the document has 6003 characters and the last chunk ends at 6002; with a first
  paragraph of 100 letters before one of 3450 the second chunk starts at -100, below
  the first, and ends at 3452 in a document of 3552 characters.
\<close>

theorem chunk_offsets_counterexample:
  "chunkContent (replicate 3000 0x61 @ [LF, LF, LF] @ replicate 3000 0x62) =
     Inr [\<lparr>chunk_text = replicate 3000 0x61, chunk_index = 0, chunk_total = 2,
           chunk_start = 0, chunk_end = 3000\<rparr>,
          \<lparr>chunk_text = replicate 200 0x61 @ [LF, LF] @ replicate 3000 0x62,
           chunk_index = 1, chunk_total = 2, chunk_start = 2800, chunk_end = 6002\<rparr>] \<and>
   length (trim (replicate 3000 0x61 @ [LF, LF, LF] @ replicate 3000 0x62)) = 6003 \<and>
   chunkContent (replicate 100 0x61 @ [LF, LF] @ replicate 3450 0x62) =
     Inr [\<lparr>chunk_text = replicate 100 0x61, chunk_index = 0, chunk_total = 2,
           chunk_start = 0, chunk_end = 100\<rparr>,
          \<lparr>chunk_text = replicate 100 0x61 @ [LF, LF] @ replicate 3450 0x62,
           chunk_index = 1, chunk_total = 2, chunk_start = - 100, chunk_end = 3452\<rparr>] \<and>
   length (trim (replicate 100 0x61 @ [LF, LF] @ replicate 3450 0x62)) = 3552"
proof -
  note tp1 = two_paragraphs [of "replicate 3000 0x61" "replicate 3000 0x62" "[LF, LF, LF]",
      OF letters_plain [OF not_white_a_b(1)] letters_plain [OF not_white_a_b(2)]]
  have side1: "replicate 3000 (0x61 :: jschar) \<noteq> []" "replicate 3000 (0x62 :: jschar) \<noteq> []"
    "[LF, LF, LF] = [LF, LF] \<or> [LF, LF, LF] = [LF, LF, LF]"
    "MAX_CHUNK_SIZE < length (replicate 3000 (0x61 :: jschar)) + 2 + length (replicate 3000 (0x62 :: jschar))"
    "length (replicate 3000 (0x61 :: jschar) @ [LF, LF, LF] @ replicate 3000 0x62) \<le> MAX_DOCUMENT_SIZE"
    by (simp_all add: MAX_CHUNK_SIZE_def MAX_DOCUMENT_SIZE_def)
  note tp2 = two_paragraphs [of "replicate 100 0x61" "replicate 3450 0x62" "[LF, LF]",
      OF letters_plain [OF not_white_a_b(1)] letters_plain [OF not_white_a_b(2)]]
  have side2: "replicate 100 (0x61 :: jschar) \<noteq> []" "replicate 3450 (0x62 :: jschar) \<noteq> []"
    "[LF, LF] = [LF, LF] \<or> [LF, LF] = [LF, LF, LF]"
    "MAX_CHUNK_SIZE < length (replicate 100 (0x61 :: jschar)) + 2 + length (replicate 3450 (0x62 :: jschar))"
    "length (replicate 100 (0x61 :: jschar) @ [LF, LF] @ replicate 3450 0x62) \<le> MAX_DOCUMENT_SIZE"
    by (simp_all add: MAX_CHUNK_SIZE_def MAX_DOCUMENT_SIZE_def)
  have a: "chunkContent (replicate 3000 0x61 @ [LF, LF, LF] @ replicate 3000 0x62) =
     Inr [\<lparr>chunk_text = replicate 3000 0x61, chunk_index = 0, chunk_total = 2,
           chunk_start = 0, chunk_end = 3000\<rparr>,
          \<lparr>chunk_text = replicate 200 0x61 @ [LF, LF] @ replicate 3000 0x62,
           chunk_index = 1, chunk_total = 2, chunk_start = 2800, chunk_end = 6002\<rparr>]"
    using tp1(3) [OF side1] by (simp add: slice_last_def CHUNK_OVERLAP_def)
  have b: "length (trim (replicate 3000 0x61 @ [LF, LF, LF] @ replicate 3000 0x62)) = 6003"
    using tp1(1) [OF side1] by simp
  have c: "chunkContent (replicate 100 0x61 @ [LF, LF] @ replicate 3450 0x62) =
     Inr [\<lparr>chunk_text = replicate 100 0x61, chunk_index = 0, chunk_total = 2,
           chunk_start = 0, chunk_end = 100\<rparr>,
          \<lparr>chunk_text = replicate 100 0x61 @ [LF, LF] @ replicate 3450 0x62,
           chunk_index = 1, chunk_total = 2, chunk_start = - 100, chunk_end = 3452\<rparr>]"
    using tp2(3) [OF side2] by (simp add: slice_last_def CHUNK_OVERLAP_def)
  have d: "length (trim (replicate 100 0x61 @ [LF, LF] @ replicate 3450 0x62)) = 3552"
    using tp2(1) [OF side2] by simp
  from a b c d show ?thesis by (intro conjI)
qed

text \<open>
  Claim C4, amended. For every document with non-empty trimmed text that
  \<^verbatim>\<open>chunkContent\<close> accepts, there is a first chunk, it starts at 0, every chunk
  satisfies end - start = length of its text, every later chunk starts 200 before the
  end of the chunk before it, and the last chunk ends at or before the trimmed length.
  When the result is a single chunk or its first chunk has at least 200 characters, the
  start offsets are non-decreasing and the ranges cover exactly the offsets from 0 to the
  end of the last chunk, with no gaps; that end is the trimmed length when the document
  has at most 3500 characters or is its paragraphs joined by two line feeds.
\<close>

theorem chunk_offsets:
  assumes res: "chunkContent D = Inr cs" and ne: "trim D \<noteq> []"
  shows "cs \<noteq> [] \<and>
         chunk_start (hd cs) = 0 \<and>
         (\<forall>c \<in> set cs. chunk_end c - chunk_start c = int (length (chunk_text c))) \<and>
         (\<forall>i. Suc i < length cs \<longrightarrow> chunk_start (cs ! Suc i) = chunk_end (cs ! i) - 200) \<and>
         chunk_end (last cs) \<le> int (length (trim D)) \<and>
         ((2 \<le> length cs \<longrightarrow> 200 \<le> length (chunk_text (hd cs))) \<longrightarrow>
            sorted (map chunk_start cs) \<and>
            (\<Union>c \<in> set cs. {chunk_start c ..< chunk_end c}) = {0 ..< chunk_end (last cs)} \<and>
            (length (trim D) \<le> 3500 \<or> join [LF, LF] (splitIntoParagraphs (trim D)) = trim D \<longrightarrow>
               chunk_end (last cs) = int (length (trim D))))"
proof -
  note o = chunkContent_offsets [OF res ne]
  have a: "chunk_start (hd cs) = 0"
    using o(2,1) by (rule chained_hd)
  have b: "\<forall>c \<in> set cs. chunk_end c - chunk_start c = int (length (chunk_text c))"
    using o(2) by (rule chained_length)
  have c: "\<forall>i. Suc i < length cs \<longrightarrow> chunk_start (cs ! Suc i) = chunk_end (cs ! i) - 200"
    using chained_next [OF o(2)] by (simp add: CHUNK_OVERLAP_def)
  have d: "sorted (map chunk_start cs) \<and>
      (\<Union>c \<in> set cs. {chunk_start c ..< chunk_end c}) = {0 ..< chunk_end (last cs)} \<and>
      (length (trim D) \<le> 3500 \<or> join [LF, LF] (splitIntoParagraphs (trim D)) = trim D \<longrightarrow>
         chunk_end (last cs) = int (length (trim D)))"
    if first: "2 \<le> length cs \<longrightarrow> 200 \<le> length (chunk_text (hd cs))"
  proof -
    have e: "length (trim D) \<le> 3500 \<or> join [LF, LF] (splitIntoParagraphs (trim D)) = trim D \<longrightarrow>
        chunk_end (last cs) = int (length (trim D))"
      using o(5) first by (simp add: CHUNK_OVERLAP_def MAX_CHUNK_SIZE_def)
    show ?thesis
    proof (cases "2 \<le> length cs")
      case True
      with first o(1,3) have "\<forall>c \<in> set cs. CHUNK_OVERLAP \<le> length (chunk_text c)"
        by (cases cs) (simp_all add: CHUNK_OVERLAP_def)
      from chained_cover [OF o(2,1) this] e show ?thesis by simp
    next
      case False
      with o(1) obtain x where x: "cs = [x]"
        by (cases cs) (auto simp: not_le less_Suc_eq)
      with o(2) e show ?thesis by simp
    qed
  qed
  from o(1,4) a b c d show ?thesis by blast
qed

text \<open>Claim C4, amended, at the document of two paragraphs of 3000 letters.\<close>

theorem chunk_offsets_witness:
  "chunkContent sample_document = Inr sample_chunks \<and>
   length (trim sample_document) = 6002 \<and>
   sorted (map chunk_start sample_chunks) \<and>
   (\<Union>c \<in> set sample_chunks. {chunk_start c ..< chunk_end c}) = {0 ..< 6002} \<and>
   chunk_end (hd sample_chunks) - chunk_start (hd sample_chunks) =
     int (length (chunk_text (hd sample_chunks)))"
proof -
  note res = sample_document_chunks(3)
  have len: "length (trim sample_document) = 6002"
    by (simp add: sample_document_chunks(1)) (simp add: sample_document_def)
  then have ne: "trim sample_document \<noteq> []" by auto
  have first: "2 \<le> length sample_chunks \<longrightarrow> 200 \<le> length (chunk_text (hd sample_chunks))"
    by (simp add: sample_chunks_def)
  have whole: "join [LF, LF] (splitIntoParagraphs (trim sample_document)) = trim sample_document"
    by (simp add: sample_document_chunks(1,2)) (simp add: sample_document_def)
  have hd_in: "hd sample_chunks \<in> set sample_chunks"
    by (simp add: sample_chunks_def)
  from chunk_offsets [OF res ne] first whole
  have "sorted (map chunk_start sample_chunks)"
    and "(\<Union>c \<in> set sample_chunks. {chunk_start c ..< chunk_end c}) =
        {0 ..< chunk_end (last sample_chunks)}"
    and "chunk_end (last sample_chunks) = int (length (trim sample_document))"
    and "\<forall>c \<in> set sample_chunks. chunk_end c - chunk_start c = int (length (chunk_text c))"
    by blast+
  with res len hd_in show ?thesis by simp
qed

section \<open>Translation into the language of the document\<close>

subsection \<open>The translation of the chunks\<close>

lemma translate_chunks_result:
  assumes "translate_chunks E target source cs acc calls = (Inr tcs, calls')"
  shows "\<exists>ts. list_all2 (\<lambda>c t. translateText E (chunk_text c) target source = Inr t) cs ts \<and>
              tcs = acc @ zip (map chunk_index cs) ts \<and>
              calls' = calls @ map (\<lambda>c. TranslateText (chunk_text c) target source) cs"
  using assms
proof (induction cs arbitrary: acc calls)
  case Nil
  then show ?case by simp
next
  case (Cons c cs)
  from Cons.prems obtain t where t: "translateText E (chunk_text c) target source = Inr t"
    by (cases "translateText E (chunk_text c) target source") simp_all
  with Cons.prems have "translate_chunks E target source cs (acc @ [(chunk_index c, t)])
      (calls @ [TranslateText (chunk_text c) target source]) = (Inr tcs, calls')"
    by simp
  from Cons.IH [OF this] obtain ts
    where ts: "list_all2 (\<lambda>c t. translateText E (chunk_text c) target source = Inr t) cs ts"
      "tcs = (acc @ [(chunk_index c, t)]) @ zip (map chunk_index cs) ts"
      "calls' = (calls @ [TranslateText (chunk_text c) target source])
         @ map (\<lambda>c. TranslateText (chunk_text c) target source) cs"
    by blast
  have "list_all2 (\<lambda>c t. translateText E (chunk_text c) target source = Inr t) (c # cs) (t # ts)"
    using t ts(1) by simp
  moreover have "tcs = acc @ zip (map chunk_index (c # cs)) (t # ts)"
    using ts(2) by simp
  moreover have "calls' = calls @ map (\<lambda>c. TranslateText (chunk_text c) target source) (c # cs)"
    using ts(3) by simp
  ultimately show ?case by blast
qed

lemma sort_insert_least:
  assumes "\<forall>y \<in> set ys. sortCompare comparefn x y \<le> 0"
  shows "sort_insert comparefn x ys = x # ys"
  using assms by (cases ys) simp_all

lemma array_sort_by_index:
  assumes "sorted (map fst xs)"
  shows "array_sort (\<lambda>a b. Some (int (fst a) - int (fst b))) xs = (xs :: (nat \<times> 'a) list)"
  using assms
proof (induction xs)
  case Nil
  then show ?case by (simp add: array_sort_def)
next
  case (Cons x xs)
  then have ih: "array_sort (\<lambda>a b. Some (int (fst a) - int (fst b))) xs = xs"
    by simp
  from Cons.prems have "\<forall>y \<in> set xs. sortCompare (\<lambda>a b. Some (int (fst a) - int (fst b))) x y \<le> 0"
    by (auto simp: sortCompare_def)
  from sort_insert_least [OF this] ih show ?case
    by (simp add: array_sort_def)
qed

lemma translateContent_branch:
  assumes "translateContent E document target sourceOpt = (Inr r, calls)"
    and "chunksProcessed r \<noteq> None"
  shows "\<exists>cs tcs.
           chunkContent document = Inr cs \<and>
           translate_chunks E target (sourceLanguage r) cs []
             (if sourceOpt = None \<or> sourceOpt = Some [] then [DetectLanguage document] else [])
             = (Inr tcs, calls) \<and>
           translatedText r =
             join [LF, LF] (map snd (array_sort (\<lambda>a b. Some (int (fst a) - int (fst b))) tcs)) \<and>
           chunksProcessed r = Some (length cs) \<and> translation_note r = None \<and>
           targetLanguage r = target \<and> sourceLanguage r \<noteq> target"
  using assms
  by (auto simp: translateContent_def Let_def rethrow_def
      split: if_splits option.splits sum.splits prod.splits error.splits)

lemma translateContent_translated:
  assumes res: "translateContent E document target sourceOpt = (Inr r, calls)"
    and present: "chunksProcessed r \<noteq> None"
  shows "\<exists>cs ts.
           chunkContent document = Inr cs \<and>
           chunksProcessed r = Some (length cs) \<and>
           translation_note r = None \<and>
           targetLanguage r = target \<and> sourceLanguage r \<noteq> target \<and>
           list_all2 (\<lambda>c t. translateText E (chunk_text c) target (sourceLanguage r) = Inr t) cs ts \<and>
           translatedText r = join [LF, LF] ts \<and>
           calls =
             (if sourceOpt = None \<or> sourceOpt = Some [] then [DetectLanguage document] else [])
             @ map (\<lambda>c. TranslateText (chunk_text c) target (sourceLanguage r)) cs"
proof -
  let ?calls0 = "if sourceOpt = None \<or> sourceOpt = Some [] then [DetectLanguage document] else []"
  from translateContent_branch [OF res present] obtain cs tcs
    where cs: "chunkContent document = Inr cs"
      and tc: "translate_chunks E target (sourceLanguage r) cs [] ?calls0 = (Inr tcs, calls)"
      and tt: "translatedText r =
        join [LF, LF] (map snd (array_sort (\<lambda>a b. Some (int (fst a) - int (fst b))) tcs))"
      and rest: "chunksProcessed r = Some (length cs)" "translation_note r = None"
        "targetLanguage r = target" "sourceLanguage r \<noteq> target"
    by blast
  from translate_chunks_result [OF tc] obtain ts
    where ts: "list_all2 (\<lambda>c t. translateText E (chunk_text c) target (sourceLanguage r) = Inr t) cs ts"
      and tcs: "tcs = zip (map chunk_index cs) ts"
      and calls: "calls = ?calls0 @ map (\<lambda>c. TranslateText (chunk_text c) target (sourceLanguage r)) cs"
    by auto
  from ts have len: "length cs = length ts" by (rule list_all2_lengthD)
  from chunkContent_indexed [OF cs] have idx: "map chunk_index cs = [0..<length cs]"
    by (simp add: indexed_map)
  have "map fst tcs = [0..<length cs]"
    using len idx by (simp add: tcs)
  then have "sorted (map fst tcs)" by simp
  then have "array_sort (\<lambda>a b. Some (int (fst a) - int (fst b))) tcs = tcs"
    by (rule array_sort_by_index)
  moreover have "map snd tcs = ts"
    using len by (simp add: tcs)
  ultimately have "translatedText r = join [LF, LF] ts"
    using tt by simp
  with cs rest ts calls show ?thesis by blast
qed

lemma chunkContent_Bonjour:
  "chunkContent (js ''Bonjour'') =
     Inr [\<lparr>chunk_text = js ''Bonjour'', chunk_index = 0, chunk_total = 1,
           chunk_start = 0, chunk_end = 7\<rparr>]"
  by (simp add: chunkContent_def trim_def js_def isWhiteSpace_def
      MAX_DOCUMENT_SIZE_def MAX_CHUNK_SIZE_def)

lemma validate_Bonjour: "valid (validateContentLength (js ''Bonjour''))"
  by (simp add: validateContentLength_def trim_def js_def isWhiteSpace_def MAX_DOCUMENT_SIZE_def)

text \<open>
  Claim C8 speaks of every non-empty document within the size limit and every language
  code. A document of two spaces is not the empty string and is within the limit, and
  \<^verbatim>\<open>translateContent\<close> throws \<^verbatim>\<open>No content to process\<close> for it. With the empty string
  as both languages the source language is detected, and the document is translated.
\<close>

theorem same_language_translation_counterexample:
  "js ''  '' \<noteq> [] \<and> length (trim (js ''  '')) \<le> 50000 \<and>
   translateContent sample_engines (js ''  '') (js ''fr'') (Some (js ''fr'')) =
     (Inl (Error (js ''No content to process'')), []) \<and>
   translateContent sample_engines (js ''Bonjour'') [] (Some []) =
     (Inr \<lparr>translatedText = js ''Bonjour'', sourceLanguage = js ''en'',
           targetLanguage = [], translation_note = None,
           chunksProcessed = Some 1\<rparr>,
      [DetectLanguage (js ''Bonjour''), TranslateText (js ''Bonjour'') [] (js ''en'')])"
proof -
  have a: "js ''  '' \<noteq> []" "length (trim (js ''  '')) \<le> 50000"
    by (simp_all add: js_def trim_def isWhiteSpace_def)
  have b: "translateContent sample_engines (js ''  '') (js ''fr'') (Some (js ''fr'')) =
     (Inl (Error (js ''No content to process'')), [])"
    by (simp add: translateContent_def validateContentLength_def validation_failure_def
        trim_def isWhiteSpace_def) (simp add: js_def)
  have ne: "js ''en'' \<noteq> []" by (simp add: js_def)
  have c: "translateContent sample_engines (js ''Bonjour'') [] (Some []) =
     (Inr \<lparr>translatedText = js ''Bonjour'', sourceLanguage = js ''en'',
           targetLanguage = [], translation_note = None,
           chunksProcessed = Some 1\<rparr>,
      [DetectLanguage (js ''Bonjour''), TranslateText (js ''Bonjour'') [] (js ''en'')])"
    using ne validate_Bonjour
    by (simp add: translateContent_def chunkContent_Bonjour sample_engines_def
        array_sort_def Let_def)
  from a b c show ?thesis by (intro conjI)
qed

text \<open>
  Claim C8, amended. For every document whose trimmed text is not empty and has at most
  50000 characters, and every non-empty language code \<open>L\<close>,
  \<^verbatim>\<open>translateContent(document, L, L)\<close> returns the document unchanged as the translated
  text, with source and target language \<open>L\<close> and a non-empty note, calls no engine,
  and has no \<^verbatim>\<open>chunksProcessed\<close> field. Whenever a result of \<^verbatim>\<open>translateContent\<close> on the
  document has that field, the source language differs from the target, there is no
  note, the field is the number of the document's chunks, every chunk was translated by
  one call of \<^verbatim>\<open>translateText\<close>, in the order of the chunks and after the detection of
  the language if there was one, and the translated text is the translations joined by
  two line feeds.
\<close>

theorem same_language_translation:
  assumes "0 < length (trim document)" and "length (trim document) \<le> 50000"
    and "L \<noteq> []"
  shows "translateContent E document L (Some L) =
           (Inr \<lparr>translatedText = document, sourceLanguage = L, targetLanguage = L,
                 translation_note = Some (js ''Content is already in the target language''),
                 chunksProcessed = None\<rparr>, []) \<and>
         js ''Content is already in the target language'' \<noteq> [] \<and>
         (\<forall>target sourceOpt r calls.
            translateContent E document target sourceOpt = (Inr r, calls) \<and>
            chunksProcessed r \<noteq> None \<longrightarrow>
            (\<exists>cs ts.
               chunkContent document = Inr cs \<and>
               chunksProcessed r = Some (length cs) \<and>
               translation_note r = None \<and>
               targetLanguage r = target \<and> sourceLanguage r \<noteq> target \<and>
               list_all2 (\<lambda>c t. translateText E (chunk_text c) target (sourceLanguage r) = Inr t)
                 cs ts \<and>
               translatedText r = join [LF, LF] ts \<and>
               calls =
                 (if sourceOpt = None \<or> sourceOpt = Some [] then [DetectLanguage document] else [])
                 @ map (\<lambda>c. TranslateText (chunk_text c) target (sourceLanguage r)) cs))"
proof -
  from assms(1) have "document \<noteq> []" by (auto simp: trim_def)
  with assms have "translateContent E document L (Some L) =
           (Inr \<lparr>translatedText = document, sourceLanguage = L, targetLanguage = L,
                 translation_note = Some (js ''Content is already in the target language''),
                 chunksProcessed = None\<rparr>, [])"
    by (simp add: translateContent_def validateContentLength_def MAX_DOCUMENT_SIZE_def Let_def)
  moreover have "js ''Content is already in the target language'' \<noteq> []"
    by (simp add: js_def)
  ultimately show ?thesis
    using translateContent_translated [of E document] by blast
qed

text \<open>
  Claim C8, amended, at \<^verbatim>\<open>translateContent("Bonjour", "fr", "fr")\<close>, beside the
  translation of the same document from French to English.
\<close>

theorem same_language_translation_witness:
  "translateContent sample_engines (js ''Bonjour'') (js ''fr'') (Some (js ''fr'')) =
     (Inr \<lparr>translatedText = js ''Bonjour'', sourceLanguage = js ''fr'',
           targetLanguage = js ''fr'',
           translation_note = Some (js ''Content is already in the target language''),
           chunksProcessed = None\<rparr>, []) \<and>
   translateContent sample_engines (js ''Bonjour'') (js ''en'') (Some (js ''fr'')) =
     (Inr \<lparr>translatedText = js ''Bonjour'', sourceLanguage = js ''fr'',
           targetLanguage = js ''en'', translation_note = None,
           chunksProcessed = Some 1\<rparr>,
      [TranslateText (js ''Bonjour'') (js ''en'') (js ''fr'')])"
proof -
  have t: "trim (js ''Bonjour'') = js ''Bonjour''"
    by (simp add: trim_def js_def isWhiteSpace_def)
  have "0 < length (trim (js ''Bonjour''))" "length (trim (js ''Bonjour'')) \<le> 50000"
    "js ''fr'' \<noteq> []"
    by (simp_all add: t) (simp_all add: js_def)
  from same_language_translation [OF this, of sample_engines]
  have same: "translateContent sample_engines (js ''Bonjour'') (js ''fr'') (Some (js ''fr'')) =
     (Inr \<lparr>translatedText = js ''Bonjour'', sourceLanguage = js ''fr'',
           targetLanguage = js ''fr'',
           translation_note = Some (js ''Content is already in the target language''),
           chunksProcessed = None\<rparr>, [])"
    by simp
  have ne: "js ''fr'' \<noteq> js ''en''" "js ''fr'' \<noteq> []"
    by (simp_all add: js_def)
  have other: "translateContent sample_engines (js ''Bonjour'') (js ''en'') (Some (js ''fr'')) =
     (Inr \<lparr>translatedText = js ''Bonjour'', sourceLanguage = js ''fr'',
           targetLanguage = js ''en'', translation_note = None,
           chunksProcessed = Some 1\<rparr>,
      [TranslateText (js ''Bonjour'') (js ''en'') (js ''fr'')])"
    using ne validate_Bonjour
    by (simp add: translateContent_def chunkContent_Bonjour sample_engines_def
        array_sort_def Let_def)
  from same other show ?thesis by (rule conjI)
qed

section \<open>Questions without text\<close>

text \<open>
  Claim C9. For every document and every question that is empty or consists of white
  space only, \<^verbatim>\<open>answerQuestion\<close> fails with the error \<^verbatim>\<open>Please provide a question\<close>
  whatever the document is, also one that the validation would reject, and calls no
  engine.
\<close>

theorem empty_question_rejected:
  assumes "list_all isWhiteSpace question"
  shows "answerQuestion E content question =
           (Inl (Error (js ''Please provide a question'')), [])"
  using trim_whitespace_only [OF assms] by (simp add: answerQuestion_def)

text \<open>Claim C9 at a question of one space, and at the empty question on the empty document.\<close>

theorem empty_question_rejected_witness:
  "answerQuestion sample_engines (js ''Some terms of service'') (js '' '') =
     (Inl (Error (js ''Please provide a question'')), []) \<and>
   answerQuestion sample_engines [] [] =
     (Inl (Error (js ''Please provide a question'')), [])"
proof -
  have "list_all isWhiteSpace (js '' '')" "list_all isWhiteSpace []"
    by (simp_all add: js_def isWhiteSpace_def)
  then show ?thesis
    using empty_question_rejected [of "js '' ''" sample_engines "js ''Some terms of service''"]
      empty_question_rejected [of "[]" sample_engines "[]"]
    by simp
qed

section \<open>The fallback deduplication\<close>

subsection \<open>The first occurrences\<close>

lemma first_occurrences_unseen: "first_occurrences key xs = unseen_occurrences key {} xs"
  by (simp add: first_occurrences_def unseen_occurrences_def)

lemma unseen_occurrences_Nil: "unseen_occurrences key seen [] = []"
  by (simp add: unseen_occurrences_def)

lemma unseen_occurrences_Cons:
  "unseen_occurrences key seen (x # xs) =
     (if key x \<in> seen then unseen_occurrences key seen xs
      else x # unseen_occurrences key (insert (key x) seen) xs)"
proof -
  let ?P = "\<lambda>(i, y). key y \<notin> seen \<union> key ` set (take i (x # xs))"
  let ?Q = "\<lambda>(i, y). key y \<notin> insert (key x) seen \<union> key ` set (take i xs)"
  have e: "enumerate 0 (x # xs) = (0, x) # map (apfst Suc) (enumerate 0 xs)"
    by (simp add: enumerate_Suc_eq)
  have f: "filter ?P (map (apfst Suc) (enumerate 0 xs)) =
      map (apfst Suc) (filter ?Q (enumerate 0 xs))"
    by (simp add: filter_map comp_def case_prod_unfold conj_ac)
  have g: "map snd (filter ?P (enumerate 0 (x # xs))) =
      (if key x \<in> seen then [] else [x]) @ map snd (filter ?Q (enumerate 0 xs))"
    unfolding e filter.simps f by simp
  have u: "unseen_occurrences key (insert (key x) seen) xs = map snd (filter ?Q (enumerate 0 xs))"
    by (simp only: unseen_occurrences_def)
  have v: "unseen_occurrences key seen (x # xs) = map snd (filter ?P (enumerate 0 (x # xs)))"
    by (simp only: unseen_occurrences_def)
  show ?thesis
  proof (cases "key x \<in> seen")
    case True
    then have "insert (key x) seen = seen" by (rule insert_absorb)
    with u have "unseen_occurrences key seen xs = map snd (filter ?Q (enumerate 0 xs))"
      by simp
    with True show ?thesis
      by (simp only: v g if_True append_Nil)
  next
    case False
    then show ?thesis
      by (simp only: v g u if_False append_Cons append_Nil)
  qed
qed

lemma unique_loop_unseen:
  "unique_loop lower kps acc seen = acc @ unseen_occurrences (normalized_key lower) seen kps"
proof (induction kps arbitrary: acc seen)
  case Nil
  then show ?case by (simp add: unseen_occurrences_Nil)
next
  case (Cons kp kps)
  then show ?case
    by (simp add: unseen_occurrences_Cons normalized_key_def Let_def)
qed

lemma set_unseen_occurrences: "set (unseen_occurrences key seen xs) \<subseteq> set xs"
  by (induction xs arbitrary: seen) (auto simp: unseen_occurrences_Nil unseen_occurrences_Cons)

lemma unseen_occurrences_distinct:
  "distinct (map key (unseen_occurrences key seen xs)) \<and>
   key ` set (unseen_occurrences key seen xs) \<inter> seen = {}"
proof (induction xs arbitrary: seen)
  case Nil
  then show ?case by (simp add: unseen_occurrences_Nil)
next
  case (Cons x xs)
  show ?case
  proof (cases "key x \<in> seen")
    case True
    with Cons [of seen] show ?thesis by (simp add: unseen_occurrences_Cons)
  next
    case False
    with Cons [of "insert (key x) seen"] show ?thesis
      by (auto simp: unseen_occurrences_Cons)
  qed
qed

lemma unseen_occurrences_id:
  "distinct (map key xs) \<Longrightarrow> key ` set xs \<inter> seen = {} \<Longrightarrow> unseen_occurrences key seen xs = xs"
proof (induction xs arbitrary: seen)
  case Nil
  then show ?case by (simp add: unseen_occurrences_Nil)
next
  case (Cons x xs)
  from Cons.prems have "key x \<notin> seen" "distinct (map key xs)"
    "key ` set xs \<inter> insert (key x) seen = {}"
    by auto
  with Cons.IH [of "insert (key x) seen"] show ?case
    by (simp add: unseen_occurrences_Cons)
qed

subsection \<open>The sort by importance\<close>

lemma importanceOrder_rank:
  "valid_importance kp \<Longrightarrow>
   importanceOrder (importance kp) = Some (int (importance_rank (importance kp)))"
  by (auto simp: valid_importance_def importanceOrder_def importance_rank_def js_def)

lemma sortCompare_importance:
  assumes "valid_importance x" and "valid_importance y"
  shows "sortCompare compare_importance x y > 0 \<longleftrightarrow>
         \<not> importance_rank (importance x) \<le> importance_rank (importance y)"
  using importanceOrder_rank [OF assms(1)] importanceOrder_rank [OF assms(2)]
  by (simp add: sortCompare_def compare_importance_def not_le)

lemma sort_insert_insort:
  assumes "valid_importance x" and "\<forall>y \<in> set ys. valid_importance y"
  shows "sort_insert compare_importance x ys =
         insort_key (\<lambda>kp. importance_rank (importance kp)) x ys"
  using assms(2)
proof (induction ys)
  case Nil
  then show ?case by simp
next
  case (Cons y ys)
  then have "valid_importance y" by simp
  from sortCompare_importance [OF assms(1) this] Cons show ?case by simp
qed

lemma array_sort_sort_key:
  assumes "\<forall>x \<in> set xs. valid_importance x"
  shows "array_sort compare_importance xs = sort_key (\<lambda>kp. importance_rank (importance kp)) xs"
  using assms
proof (induction xs)
  case Nil
  then show ?case by (simp add: array_sort_def)
next
  case (Cons x xs)
  then have ih: "array_sort compare_importance xs =
      sort_key (\<lambda>kp. importance_rank (importance kp)) xs"
    by simp
  from Cons.prems have "valid_importance x"
    and "\<forall>y \<in> set (sort_key (\<lambda>kp. importance_rank (importance kp)) xs). valid_importance y"
    by simp_all
  from sort_insert_insort [OF this] ih show ?case
    by (simp add: array_sort_def sort_key_def)
qed

lemma deduplicateSimple_unseen:
  assumes "\<forall>kp \<in> set keyPoints. valid_importance kp"
  shows "deduplicateSimple lower keyPoints =
         take 10 (sort_key (\<lambda>kp. importance_rank (importance kp))
           (unseen_occurrences (normalized_key lower) {} keyPoints))"
proof -
  let ?u = "unseen_occurrences (normalized_key lower) {} keyPoints"
  have u: "unique_loop lower keyPoints [] {} = ?u"
    by (simp add: unique_loop_unseen)
  have "set ?u \<subseteq> set keyPoints"
    by (rule set_unseen_occurrences)
  with assms have "\<forall>kp \<in> set ?u. valid_importance kp" by blast
  then have "array_sort compare_importance ?u =
      sort_key (\<lambda>kp. importance_rank (importance kp)) ?u"
    by (rule array_sort_sort_key)
  then show ?thesis
    by (simp add: deduplicateSimple_def u)
qed

lemma deduplicate_spec_fixed:
  assumes "distinct (map (normalized_key lower) xs)"
    and "sorted (map (\<lambda>kp. importance_rank (importance kp)) xs)"
    and "length xs \<le> 10"
  shows "deduplicate_spec lower xs = xs"
proof -
  have "first_occurrences (normalized_key lower) xs = xs"
    unfolding first_occurrences_unseen using assms(1) by (intro unseen_occurrences_id) simp_all
  moreover have "sort_key (\<lambda>kp. importance_rank (importance kp)) xs = xs"
    using assms(2) by (rule sort_key_id_if_sorted)
  ultimately show ?thesis
    using assms(3) by (simp add: deduplicate_spec_def)
qed

lemma deduplicate_spec_shape:
  "distinct (map (normalized_key lower) (deduplicate_spec lower xs))"
  "sorted (map (\<lambda>kp. importance_rank (importance kp)) (deduplicate_spec lower xs))"
  "length (deduplicate_spec lower xs) \<le> 10"
  "set (deduplicate_spec lower xs) \<subseteq> set xs"
proof -
  let ?key = "normalized_key lower"
  let ?r = "\<lambda>kp. importance_rank (importance kp)"
  let ?u = "first_occurrences ?key xs"
  let ?v = "sort_key ?r ?u"
  have du: "distinct (map ?key ?u)"
    unfolding first_occurrences_unseen using unseen_occurrences_distinct [of ?key "{}" xs] by simp
  then have "distinct ?u" "inj_on ?key (set ?u)"
    by (simp_all add: distinct_map)
  then have "distinct (map ?key ?v)"
    by (simp add: distinct_map)
  then have "distinct (take 10 (map ?key ?v))"
    by (rule distinct_take)
  then show "distinct (map ?key (deduplicate_spec lower xs))"
    by (simp add: deduplicate_spec_def take_map)
  have "sorted (map ?r ?v)" by (rule sorted_sort_key)
  then have "sorted (take 10 (map ?r ?v))" by (rule sorted_wrt_take)
  then show "sorted (map ?r (deduplicate_spec lower xs))"
    by (simp add: deduplicate_spec_def take_map)
  show "length (deduplicate_spec lower xs) \<le> 10"
    by (simp add: deduplicate_spec_def)
  have "set (take 10 ?v) \<subseteq> set ?v" by (rule set_take_subset)
  also have "set ?v = set ?u" by simp
  also have "\<dots> \<subseteq> set xs"
    unfolding first_occurrences_unseen by (rule set_unseen_occurrences)
  finally show "set (deduplicate_spec lower xs) \<subseteq> set xs"
    by (simp add: deduplicate_spec_def)
qed

lemma sample_keypoints_valid: "\<forall>kp \<in> set sample_keypoints. valid_importance kp"
  by (simp add: sample_keypoints_def valid_importance_def)

lemma sample_keypoints_deduplicated:
  "deduplicateSimple ascii_toLowerCase sample_keypoints = sample_deduplicated"
  by (simp add: deduplicateSimple_def sample_keypoints_def sample_deduplicated_def
      array_sort_def sortCompare_def compare_importance_def importanceOrder_def
      ascii_toLowerCase_def trim_def isWhiteSpace_def js_def)

text \<open>
  Claim C6. For every list of key points whose importance is one of \<^verbatim>\<open>high\<close>,
  \<^verbatim>\<open>medium\<close> and \<^verbatim>\<open>low\<close>, \<^verbatim>\<open>deduplicateSimple\<close> returns the list that the
  specification describes: the first occurrence of each lowercased and trimmed point
  text, sorted stably by the rank of the importance, cut to the first ten.
\<close>

theorem deduplicateSimple_refines_spec:
  assumes "\<forall>kp \<in> set keyPoints. valid_importance kp"
  shows "deduplicateSimple lower keyPoints = deduplicate_spec lower keyPoints"
proof -
  have "first_occurrences (normalized_key lower) keyPoints =
      unseen_occurrences (normalized_key lower) {} keyPoints"
    by (rule first_occurrences_unseen)
  with deduplicateSimple_unseen [OF assms, of lower] show ?thesis
    by (simp add: deduplicate_spec_def)
qed

text \<open>Claim C6 at four key points, the third a repetition of the first.\<close>

theorem deduplicateSimple_refines_spec_witness:
  "deduplicateSimple ascii_toLowerCase sample_keypoints =
     deduplicate_spec ascii_toLowerCase sample_keypoints \<and>
   deduplicate_spec ascii_toLowerCase sample_keypoints = sample_deduplicated"
  using deduplicateSimple_refines_spec [OF sample_keypoints_valid, of ascii_toLowerCase]
    sample_keypoints_deduplicated
  by simp

text \<open>
  Claim C7. For every list of key points whose importance is one of \<^verbatim>\<open>high\<close>,
  \<^verbatim>\<open>medium\<close> and \<^verbatim>\<open>low\<close>, applying \<^verbatim>\<open>deduplicateSimple\<close> twice gives the same
  list as applying it once.
\<close>

theorem deduplicateSimple_idempotent:
  assumes "\<forall>kp \<in> set keyPoints. valid_importance kp"
  shows "deduplicateSimple lower (deduplicateSimple lower keyPoints) =
         deduplicateSimple lower keyPoints"
proof -
  let ?once = "deduplicateSimple lower keyPoints"
  have once: "?once = deduplicate_spec lower keyPoints"
    using deduplicateSimple_unseen [OF assms, of lower]
    by (simp add: deduplicate_spec_def first_occurrences_unseen)
  note shape = deduplicate_spec_shape [of lower keyPoints]
  from shape(4) assms have valid: "\<forall>kp \<in> set ?once. valid_importance kp"
    unfolding once by blast
  then have "deduplicateSimple lower ?once = deduplicate_spec lower ?once"
    using deduplicateSimple_unseen [of ?once lower]
    by (simp add: deduplicate_spec_def first_occurrences_unseen)
  also have "\<dots> = ?once"
    unfolding once using shape(1-3) by (rule deduplicate_spec_fixed)
  finally show ?thesis .
qed

text \<open>Claim C7 at the same four key points.\<close>

theorem deduplicateSimple_idempotent_witness:
  "deduplicateSimple ascii_toLowerCase (deduplicateSimple ascii_toLowerCase sample_keypoints) =
     deduplicateSimple ascii_toLowerCase sample_keypoints \<and>
   deduplicateSimple ascii_toLowerCase sample_keypoints = sample_deduplicated"
  using deduplicateSimple_idempotent [OF sample_keypoints_valid, of ascii_toLowerCase]
    sample_keypoints_deduplicated
  by simp

end
